theory Spec2Isabelle
  imports Main "HOL-Library.AList"
begin

section \<open>JavaScript values carried by a page\<close>

text \<open>
  Page props arrive as JSON, so a prop value is null, a boolean, a number, a string, an
  array or a plain object. Numbers are only carried and tested for being zero, never
  computed with, so they are integers here. A plain object is the association list of
  its own properties in insertion order. Reading a property that the object does not own
  goes on to \<open>Object.prototype\<close>, so a read can also yield one of its built-in methods
  (\<open>JFunction\<close>, by name) or, for \<open>__proto__\<close>, the prototype object itself; a read that
  finds nothing (\<open>undefined\<close> in the source) is \<open>None\<close>.
\<close>

datatype jsval =
    JNull
  | JBool bool
  | JNum int
  | JStr string
  | JArr "jsval list"
  | JObj "(string \<times> jsval) list"
  | JFunction string
  | JObjectPrototype

type_synonym jsobject = "(string \<times> jsval) list"

datatype error = TypeError

text \<open>Truthiness, as \<open>||\<close> and \<open>!\<close> test it.\<close>

fun truthy :: "jsval \<Rightarrow> bool" where
  "truthy JNull = False"
| "truthy (JBool b) = b"
| "truthy (JNum n) = (n \<noteq> 0)"
| "truthy (JStr s) = (s \<noteq> [])"
| "truthy (JArr xs) = True"
| "truthy (JObj kvs) = True"
| "truthy (JFunction f) = True"
| "truthy JObjectPrototype = True"

text \<open>\<open>Array.isArray(v)\<close> and \<open>typeof v === 'object'\<close> (which holds for null too).\<close>

fun isArray :: "jsval \<Rightarrow> bool" where
  "isArray (JArr xs) = True"
| "isArray v = False"

fun typeofObject :: "jsval \<Rightarrow> bool" where
  "typeofObject JNull = True"
| "typeofObject (JArr xs) = True"
| "typeofObject (JObj kvs) = True"
| "typeofObject JObjectPrototype = True"
| "typeofObject v = False"

text \<open>\<open>x || []\<close> for a property read \<open>x\<close>: an absent or falsy value gives the empty array.\<close>

fun orEmptyArray :: "jsval option \<Rightarrow> jsval" where
  "orEmptyArray None = JArr []"
| "orEmptyArray (Some v) = (if truthy v then v else JArr [])"

text \<open>The decimal rendering of an array index, the property key of an element.\<close>

definition digit :: "nat \<Rightarrow> char" where
  "digit n = ''0123456789'' ! (n mod 10)"

function indexKey :: "nat \<Rightarrow> string" where
  "indexKey n = (if n < 10 then [digit n] else indexKey (n div 10) @ [digit (n mod 10)])"
  by pat_completeness auto
termination
  by (relation "measure (\<lambda>n. n)") auto

declare indexKey.simps [simp del]

fun indexed :: "nat \<Rightarrow> jsval list \<Rightarrow> jsobject" where
  "indexed i [] = []"
| "indexed i (x # xs) = (indexKey i, x) # indexed (Suc i) xs"

text \<open>
  Array spread \<open>[...v]\<close> iterates \<open>v\<close>: the elements of an array, the characters of a
  string; any other value is not iterable and the spread throws a TypeError.
\<close>

fun spreadIterable :: "jsval \<Rightarrow> error + jsval list" where
  "spreadIterable (JArr xs) = Inr xs"
| "spreadIterable (JStr s) = Inr (map (\<lambda>c. JStr [c]) s)"
| "spreadIterable v = Inl TypeError"

text \<open>
  Object spread \<open>{...v}\<close> copies the own enumerable properties of \<open>v\<close>: the entries of an
  object, the indexed elements of an array, the indexed characters of a string, and
  nothing for null, a boolean, a number, a built-in function or \<open>Object.prototype\<close>
  (whose own properties are not enumerable).
\<close>

fun ownProperties :: "jsval \<Rightarrow> jsobject" where
  "ownProperties (JObj kvs) = kvs"
| "ownProperties (JArr xs) = indexed 0 xs"
| "ownProperties (JStr s) = indexed 0 (map (\<lambda>c. JStr [c]) s)"
| "ownProperties v = []"

text \<open>
  Writing property \<open>k\<close> of an object replaces the entry in place or appends a new one
  (\<open>AList.update\<close>); copying a list of properties into a target writes them one by one, so
  a later one wins.
\<close>

definition objAssign :: "jsobject \<Rightarrow> jsobject \<Rightarrow> jsobject" where
  "objAssign target source = fold (\<lambda>(k, v). AList.update k v) source target"

text \<open>The object literal \<open>{...a, ...b}\<close>.\<close>

definition spread2 :: "jsval \<Rightarrow> jsval \<Rightarrow> jsobject" where
  "spread2 a b = objAssign (objAssign [] (ownProperties a)) (ownProperties b)"

text \<open>
  The property read \<open>obj[k]\<close> on a plain object: an own property first, then
  \<open>Object.prototype\<close>, whose members are its built-in methods and the accessor
  \<open>__proto__\<close>, which returns the object's prototype.
\<close>

definition objectPrototypeMethods :: "string list" where
  "objectPrototypeMethods =
     [''constructor'', ''hasOwnProperty'', ''isPrototypeOf'', ''propertyIsEnumerable'',
      ''toLocaleString'', ''toString'', ''valueOf'', ''__defineGetter__'',
      ''__defineSetter__'', ''__lookupGetter__'', ''__lookupSetter__'']"

definition inheritedMethod :: "string \<Rightarrow> jsval option" where
  "inheritedMethod k = (if k \<in> set objectPrototypeMethods then Some (JFunction k) else None)"

definition getProperty :: "jsobject \<Rightarrow> string \<Rightarrow> jsval option" where
  "getProperty obj k =
     (case map_of obj k of
        Some v \<Rightarrow> Some v
      | None \<Rightarrow> if k = ''__proto__'' then Some JObjectPrototype else inheritedMethod k)"

text \<open>
  The payload's props while \<open>mergeProps\<close> writes into them. Writing \<open>__proto__\<close> where
  neither the object nor its prototype owns a property of that name runs the accessor's
  setter, which replaces the object's prototype (\<open>None\<close> stands for \<open>Object.prototype\<close>,
  \<open>Some y\<close> for a plain object \<open>y\<close>) and leaves the own properties alone. Every other
  write replaces the own property in place or appends it. The setter ignores a value
  that is not an object; \<open>mergeProps\<close> reaches it only with a plain object.
\<close>

record propsObject =
  own :: jsobject
  prototype :: "jsobject option"

definition readProp :: "propsObject \<Rightarrow> string \<Rightarrow> jsval option" where
  "readProp obj k =
     (case map_of (own obj) k of
        Some v \<Rightarrow> Some v
      | None \<Rightarrow>
          (case prototype obj of
             None \<Rightarrow> getProperty [] k
           | Some y \<Rightarrow>
               (case map_of y k of
                  Some v \<Rightarrow> Some v
                | None \<Rightarrow> if k = ''__proto__'' then Some (JObj y) else inheritedMethod k)))"

definition reachesSetter :: "propsObject \<Rightarrow> string \<Rightarrow> bool" where
  "reachesSetter obj k =
     (k = ''__proto__'' \<and> map_of (own obj) k = None
      \<and> (case prototype obj of None \<Rightarrow> True | Some y \<Rightarrow> map_of y k = None))"

definition writeProp :: "string \<Rightarrow> jsval \<Rightarrow> propsObject \<Rightarrow> propsObject" where
  "writeProp k v obj =
     (if reachesSetter obj k then
        (case v of JObj y \<Rightarrow> obj\<lparr>prototype := Some y\<rparr> | _ \<Rightarrow> obj)
      else obj\<lparr>own := AList.update k v (own obj)\<rparr>)"

section \<open>Pages, visits and responses\<close>

record page =
  component :: string
  props :: jsobject
  url :: string
  version :: "string option"
  rememberedState :: "jsobject option"
  scrollRegions :: "(int \<times> int) list option"
  mergePropNames :: "string list option"

text \<open>
  The request parameters of a visit (\<open>requestParams.all()\<close>). \<open>isPartial\<close> stands for
  \<open>requestParams.isPartial()\<close>, which requestParams.ts derives from the visit's partial
  reload lists. The callbacks are code of the caller; the model records each call in the
  trace of effects below.
\<close>

record requestParams =
  visitUrl :: string
  async :: bool
  prefetch :: bool
  preserveUrl :: bool
  preserveScroll :: bool
  preserveState :: bool
  replace :: bool
  errorBag :: "string option"
  isPartial :: bool

record axiosResponse =
  status :: int
  headers :: "(string \<times> string) list"
  data :: page

text \<open>The three fields of a \<open>Response\<close> object.\<close>

record response =
  requestParams :: requestParams
  response :: axiosResponse
  originatingPage :: page

record URL =
  origin :: string
  pathname :: string
  search :: string
  hash :: string
  href :: string

record visitOptions =
  opt_replace :: bool
  opt_preserveScroll :: bool
  opt_preserveState :: bool

text \<open>
  What processing does to the outside: callbacks of the visit, events, the page store's
  commit, session storage and the browser window. Each is recorded in order.
\<close>

datatype effect =
    OnPrefetched
  | PrefetchedEvent
  | OnPrefetchResponse
  | RunCallbacks
  | ErrorEvent jsval
  | OnError jsval
  | SuccessEvent page
  | OnSuccess page
  | InvalidEvent
  | ModalShow
  | SessionSet bool
  | SessionRemove
  | LocationReload
  | LocationAssign string
  | PageSet page visitOptions
  | SetUrlHash string
  | HistoryDecrypt
  | ScrollRestore page
  | NavigateEvent page
  | MissingHistoryItem

datatype navigation = Navigate | Reload | BackForward

text \<open>
  The singletons the code reads and writes: the page store's current page, the History
  adapter (its \<open>preserveUrl\<close> flag, the remembered state and scroll regions of the current
  entry, whether the entry holds any state, and what \<open>decrypt()\<close> will resolve to, \<open>None\<close>
  for a rejection), the session storage slot of the location visit (\<open>Some b\<close> when the
  marker is stored with \<open>preserveScroll = b\<close>) and whether session storage can be written,
  the navigation type, the window's hash, and the trace of effects.
\<close>

record world =
  currentPage :: page
  History_preserveUrl :: bool
  History_rememberedState :: "jsobject option"
  History_scrollRegions :: "(int \<times> int) list option"
  History_hasAnyState :: bool
  History_decrypt :: "page option"
  SessionStorage_locationVisit :: "bool option"
  SessionStorage_writable :: bool
  navigationType :: navigation
  window_location_hash :: string
  trace :: "effect list"

text \<open>
  Functions of url.ts, requestParams.ts, events.ts and page.ts that the code calls and
  whose source is not part of the files verified here; they are parameters of the model.
\<close>

record env =
  hrefToUrl :: "string \<Rightarrow> URL"
  setHashIfSameUrl :: "string \<Rightarrow> URL \<Rightarrow> URL"
  isSameUrlWithoutHash :: "URL \<Rightarrow> URL \<Rightarrow> bool"
  window_location :: URL
  setPreserveOptions :: "page \<Rightarrow> requestParams \<Rightarrow> requestParams"
  fireInvalidEvent :: "axiosResponse \<Rightarrow> bool"
  urlWithHash :: "string \<Rightarrow> string \<Rightarrow> string"

definition emit :: "effect list \<Rightarrow> world \<Rightarrow> world" where
  "emit es w = w\<lparr>trace := trace w @ es\<rparr>"

section \<open>The Response Processor (response.ts)\<close>

subsection \<open>Staleness policy\<close>

definition shouldSetPage :: "env \<Rightarrow> response \<Rightarrow> world \<Rightarrow> page \<Rightarrow> bool" where
  "shouldSetPage e r w pageResponse =
     (if \<not> async (requestParams r) then True
      else if component (originatingPage r) \<noteq> component pageResponse then True
      else if component (originatingPage r) \<noteq> component (currentPage w) then False
      else
        (let originatingUrl = hrefToUrl e (url (originatingPage r));
             currentPageUrl = hrefToUrl e (url (currentPage w))
         in origin originatingUrl = origin currentPageUrl
            \<and> pathname originatingUrl = pathname currentPageUrl))"

subsection \<open>Merging props\<close>

text \<open>
  The body of the \<open>forEach\<close> over the mergeable prop names: it reads the incoming value of
  the prop, and only the kind of that value selects the branch. The array branch spreads
  the prior value (or \<open>[]\<close>) into an array, which throws when that value is not iterable.
  Both values are property reads, on the payload's props and on the current page's.
\<close>

definition mergeProp :: "jsobject \<Rightarrow> string \<Rightarrow> propsObject \<Rightarrow> error + propsObject" where
  "mergeProp current prop incoming =
     (case readProp incoming prop of
        None \<Rightarrow> Inr incoming
      | Some incomingProp \<Rightarrow>
          if isArray incomingProp then
            (case spreadIterable (orEmptyArray (getProperty current prop)) of
               Inl err \<Rightarrow> Inl err
             | Inr prior \<Rightarrow>
                 (case spreadIterable incomingProp of
                    Inl err \<Rightarrow> Inl err
                  | Inr new \<Rightarrow> Inr (writeProp prop (JArr (prior @ new)) incoming)))
          else if typeofObject incomingProp then
            Inr (writeProp prop
                   (JObj (spread2 (orEmptyArray (getProperty current prop)) incomingProp))
                   incoming)
          else Inr incoming)"

fun mergeEach :: "jsobject \<Rightarrow> string list \<Rightarrow> propsObject \<Rightarrow> error + propsObject" where
  "mergeEach current [] incoming = Inr incoming"
| "mergeEach current (prop # rest) incoming =
     (case mergeProp current prop incoming of
        Inl err \<Rightarrow> Inl err
      | Inr incoming' \<Rightarrow> mergeEach current rest incoming')"

text \<open>\<open>const propsToMerge = pageResponse.mergeProps || []\<close>\<close>

definition propsToMerge :: "page \<Rightarrow> string list" where
  "propsToMerge pageResponse = (case mergePropNames pageResponse of None \<Rightarrow> [] | Some ns \<Rightarrow> ns)"

text \<open>
  The payload arrives as parsed JSON, so the prototype of its props is
  \<open>Object.prototype\<close> when the loop starts; the final spread copies own properties only.
\<close>

definition mergeProps :: "response \<Rightarrow> world \<Rightarrow> page \<Rightarrow> error + page" where
  "mergeProps r w pageResponse =
     (if isPartial (requestParams r) \<and> component pageResponse = component (currentPage w) then
        (case mergeEach (props (currentPage w)) (propsToMerge pageResponse)
                \<lparr>own = props pageResponse, prototype = None\<rparr> of
           Inl err \<Rightarrow> Inl err
         | Inr merged \<Rightarrow>
             Inr (pageResponse\<lparr>props :=
                    spread2 (JObj (props (currentPage w))) (JObj (own merged))\<rparr>))
      else Inr pageResponse)"

subsection \<open>Remembered state and scoped errors\<close>

text \<open>
  \<open>History.getState(History.rememberedState)\<close> is an object when the entry holds one, so
  it is truthy exactly when it is there.
\<close>

definition setRememberedState :: "response \<Rightarrow> world \<Rightarrow> page \<Rightarrow> page" where
  "setRememberedState r w pageResponse =
     (if preserveState (requestParams r)
         \<and> History_rememberedState w \<noteq> None
         \<and> component pageResponse = component (currentPage w)
      then pageResponse\<lparr>rememberedState := History_rememberedState w\<rparr>
      else pageResponse)"

text \<open>
  \<open>!errorBag\<close> holds for a missing error bag name and for the empty string;
  \<open>errors[errorBag]\<close> is a property read on the errors object.
\<close>

definition noErrorBag :: "string option \<Rightarrow> bool" where
  "noErrorBag b = (case b of None \<Rightarrow> True | Some s \<Rightarrow> s = [])"

definition getScopedErrors :: "response \<Rightarrow> jsobject \<Rightarrow> jsval" where
  "getScopedErrors r errors =
     (if noErrorBag (errorBag (requestParams r)) then JObj errors
      else
        (case getProperty errors (case errorBag (requestParams r) of None \<Rightarrow> [] | Some s \<Rightarrow> s) of
           None \<Rightarrow> JObj []
         | Some v \<Rightarrow> if truthy v then v else JObj []))"

subsection \<open>Committing the page\<close>

definition pageUrl :: "env \<Rightarrow> response \<Rightarrow> page \<Rightarrow> string" where
  "pageUrl e r pageResponse =
     href (setHashIfSameUrl e (visitUrl (requestParams r)) (hrefToUrl e (url pageResponse)))"

text \<open>
  Modelled from the spec: \<open>currentPage.set\<close> of page.ts is not among the files verified
  here. By the spec's Page Store a \<open>set\<close> call fully replaces the current page; the call
  and its options are recorded.
\<close>

definition currentPage_set :: "page \<Rightarrow> visitOptions \<Rightarrow> world \<Rightarrow> world" where
  "currentPage_set p opts w = emit [PageSet p opts] (w\<lparr>currentPage := p\<rparr>)"

datatype outcome = Resolved | Rejected error

text \<open>
  \<open>setPage\<close> mutates the payload \<open>this.response.data\<close> and the request parameters in
  place, so it returns the response object as well. \<open>mergeProps\<close> is called synchronously
  and its TypeError leaves \<open>setPage\<close>, and \<open>process\<close> with it, as a rejection; the
  response is then returned as it was before the call (the props merged before the throw
  are not kept).
\<close>

definition setPage :: "env \<Rightarrow> response \<Rightarrow> world \<Rightarrow> outcome \<times> response \<times> world" where
  "setPage e r w =
     (let pageResponse = data (response r) in
      if \<not> shouldSetPage e r w pageResponse then (Resolved, r, w)
      else
        (case mergeProps r w pageResponse of
           Inl err \<Rightarrow> (Rejected err, r, w)
         | Inr merged \<Rightarrow>
             (let remembered = setRememberedState r w merged;
                  params = setPreserveOptions e remembered (requestParams r);
                  r' = r\<lparr>requestParams := params\<rparr>;
                  committed = remembered\<lparr>url :=
                    (if History_preserveUrl w then url (currentPage w)
                     else pageUrl e r' remembered)\<rparr>
              in (Resolved,
                  r'\<lparr>response := (response r)\<lparr>data := committed\<rparr>\<rparr>,
                  currentPage_set committed
                    \<lparr>opt_replace = replace params,
                     opt_preserveScroll = preserveScroll params,
                     opt_preserveState = preserveState params\<rparr> w))))"

subsection \<open>Responses that are not protocol responses\<close>

definition getHeader :: "response \<Rightarrow> string \<Rightarrow> string option" where
  "getHeader r header = map_of (headers (response r)) header"

definition hasHeader :: "response \<Rightarrow> string \<Rightarrow> bool" where
  "hasHeader r header = (getHeader r header \<noteq> None)"

definition hasStatus :: "response \<Rightarrow> int \<Rightarrow> bool" where
  "hasStatus r s = (status (response r) = s)"

definition isInertiaResponse :: "response \<Rightarrow> bool" where
  "isInertiaResponse r = hasHeader r ''x-inertia''"

definition isLocationVisit :: "response \<Rightarrow> bool" where
  "isLocationVisit r = (hasStatus r 409 \<and> hasHeader r ''x-inertia-location'')"

text \<open>
  The \<open>try\<close> block of \<open>locationVisit\<close>: writing session storage may throw, and the
  \<open>catch\<close> then returns without navigating.
\<close>

definition locationVisit :: "env \<Rightarrow> response \<Rightarrow> URL \<Rightarrow> world \<Rightarrow> world" where
  "locationVisit e r locationUrl w =
     (if \<not> SessionStorage_writable w then w
      else
        (let marker = preserveScroll (requestParams r);
             w1 = emit [SessionSet marker] (w\<lparr>SessionStorage_locationVisit := Some marker\<rparr>)
         in if isSameUrlWithoutHash e (window_location e) locationUrl
            then emit [LocationReload] w1
            else emit [LocationAssign (href locationUrl)] w1))"

definition handleNonInertiaResponse :: "env \<Rightarrow> response \<Rightarrow> world \<Rightarrow> outcome \<times> response \<times> world" where
  "handleNonInertiaResponse e r w =
     (if isLocationVisit r then
        (case getHeader r ''x-inertia-location'' of
           None \<Rightarrow> (Rejected TypeError, r, w)
         | Some location \<Rightarrow>
             (let locationUrl = setHashIfSameUrl e (visitUrl (requestParams r)) (hrefToUrl e location)
              in (Resolved, r, locationVisit e r locationUrl w)))
      else if fireInvalidEvent e (response r) then (Resolved, r, emit [InvalidEvent, ModalShow] w)
      else (Resolved, r, emit [InvalidEvent] w))"

subsection \<open>Processing one response\<close>

text \<open>
  The callbacks of the visit and the event dispatchers are code outside response.ts; a
  call is recorded in the trace and taken to return. That an awaited \<open>process()\<close> may
  reject, whatever the cause, is part of the queue's model below.
\<close>

text \<open>
  The committed page's \<open>props.errors || {}\<close>; the Page type declares \<open>props.errors\<close> an
  object.
\<close>

definition pageErrors :: "page \<Rightarrow> jsobject" where
  "pageErrors p = (case map_of (props p) ''errors'' of Some (JObj kvs) \<Rightarrow> kvs | _ \<Rightarrow> [])"

definition process :: "env \<Rightarrow> response \<Rightarrow> world \<Rightarrow> outcome \<times> response \<times> world" where
  "process e r w =
     (if prefetch (requestParams r) then
        (Resolved,
         r\<lparr>requestParams := (requestParams r)\<lparr>prefetch := False\<rparr>\<rparr>,
         emit [OnPrefetched, PrefetchedEvent, OnPrefetchResponse] w)
      else
        (let w1 = emit [RunCallbacks] w in
         if \<not> isInertiaResponse r then handleNonInertiaResponse e r w1
         else
           (let w2 = w1\<lparr>History_preserveUrl := preserveUrl (requestParams r)\<rparr> in
            case setPage e r w2 of
              (Rejected err, r3, w3) \<Rightarrow> (Rejected err, r3, w3)
            | (Resolved, r3, w3) \<Rightarrow>
                (let errors = pageErrors (currentPage w3) in
                 if length (map fst errors) > 0 then
                   (let scopedErrors = getScopedErrors r3 errors
                    in (Resolved, r3, emit [ErrorEvent scopedErrors, OnError scopedErrors] w3))
                 else
                   (Resolved, r3,
                    (emit [SuccessEvent (currentPage w3), OnSuccess (currentPage w3)] w3)
                      \<lparr>History_preserveUrl := False\<rparr>)))))"

section \<open>The Response Queue (response.ts)\<close>

text \<open>
  The queue is driven by the event loop. \<open>handle\<close> runs synchronously up to the first
  \<open>await\<close>; the drain loop continues when the \<open>process()\<close> call it awaits settles, and
  \<open>ResponseQueue.process\<close> continues (and clears the flag) when the drain loop it awaits
  has returned. Where the single drain loop is suspended is part of the state: nowhere
  (\<open>NoDrain\<close>), at \<open>await nextResponse.process()\<close> (\<open>InProcess\<close>), or returned to
  \<open>await this.processQueue()\<close> with the flag still set (\<open>Returning\<close>). What
  \<open>nextResponse.process()\<close> does is not looked at here; its start and its settling are
  recorded.
\<close>

datatype 'r observation = Started 'r | Finished 'r | Failed 'r

datatype 'r drain = NoDrain | InProcess 'r | Returning

record 'r responseQueue =
  queue :: "'r list"
  processing :: bool
  drain :: "'r drain"
  observed :: "'r observation list"

definition ResponseQueue_add :: "'r \<Rightarrow> 'r responseQueue \<Rightarrow> 'r responseQueue" where
  "ResponseQueue_add r q = q\<lparr>queue := queue q @ [r]\<rparr>"

text \<open>\<open>processQueue\<close> up to its \<open>await\<close>, or to its return when the queue is empty.\<close>

definition processQueue :: "'r responseQueue \<Rightarrow> 'r responseQueue" where
  "processQueue q =
     (case queue q of
        [] \<Rightarrow> q\<lparr>drain := Returning\<rparr>
      | nextResponse # rest \<Rightarrow>
          q\<lparr>queue := rest, drain := InProcess nextResponse,
            observed := observed q @ [Started nextResponse]\<rparr>)"

definition ResponseQueue_process :: "'r responseQueue \<Rightarrow> 'r responseQueue" where
  "ResponseQueue_process q =
     (if processing q then q else processQueue (q\<lparr>processing := True\<rparr>))"

definition handle :: "'r \<Rightarrow> 'r responseQueue \<Rightarrow> 'r responseQueue" where
  "handle r q = ResponseQueue_process (ResponseQueue_add r q)"

text \<open>
  The awaited \<open>process()\<close> resolves: the drain loop calls itself. It rejects: the
  rejection passes through \<open>processQueue\<close> and \<open>ResponseQueue.process\<close>, neither of which
  catches it, so the assignment \<open>this.processing = false\<close> is not reached. The drain loop
  has returned: \<open>ResponseQueue.process\<close> clears the flag.
\<close>

definition processResolved :: "'r responseQueue \<Rightarrow> 'r responseQueue" where
  "processResolved q =
     (case drain q of
        InProcess r \<Rightarrow> processQueue (q\<lparr>observed := observed q @ [Finished r]\<rparr>)
      | _ \<Rightarrow> q)"

definition processRejected :: "'r responseQueue \<Rightarrow> 'r responseQueue" where
  "processRejected q =
     (case drain q of
        InProcess r \<Rightarrow> q\<lparr>drain := NoDrain, observed := observed q @ [Failed r]\<rparr>
      | _ \<Rightarrow> q)"

definition drainReturned :: "'r responseQueue \<Rightarrow> 'r responseQueue" where
  "drainReturned q =
     (case drain q of
        Returning \<Rightarrow> q\<lparr>processing := False, drain := NoDrain\<rparr>
      | _ \<Rightarrow> q)"

datatype 'r event = Handle 'r | Resolve | Reject | Resume

fun step :: "'r event \<Rightarrow> 'r responseQueue \<Rightarrow> 'r responseQueue" where
  "step (Handle r) q = handle r q"
| "step Resolve q = processResolved q"
| "step Reject q = processRejected q"
| "step Resume q = drainReturned q"

definition run :: "'r event list \<Rightarrow> 'r responseQueue \<Rightarrow> 'r responseQueue" where
  "run es q = fold step es q"

definition newQueue :: "'r responseQueue" where
  "newQueue = \<lparr>queue = [], processing = False, drain = NoDrain, observed = []\<rparr>"

text \<open>
  What a schedule of events enqueues, and what the record of observations says was
  started and finished, each in order.
\<close>

fun enqueued :: "'r event list \<Rightarrow> 'r list" where
  "enqueued [] = []"
| "enqueued (Handle r # es) = r # enqueued es"
| "enqueued (e # es) = enqueued es"

fun started :: "'r observation list \<Rightarrow> 'r list" where
  "started [] = []"
| "started (Started r # os) = r # started os"
| "started (ob # os) = started os"

fun finished :: "'r observation list \<Rightarrow> 'r list" where
  "finished [] = []"
| "finished (Finished r # os) = r # finished os"
| "finished (ob # os) = finished os"

text \<open>
  Reading the record from the left: a \<open>process()\<close> may start only when none is in
  flight, and what settles is the one in flight. A record is serial when it never shows
  an overlap.
\<close>

datatype 'r flight = Quiet | Flying 'r | Overlap

fun observe :: "'r observation \<Rightarrow> 'r flight \<Rightarrow> 'r flight" where
  "observe (Started r) Quiet = Flying r"
| "observe (Finished r) (Flying r') = (if r = r' then Quiet else Overlap)"
| "observe (Failed r) (Flying r') = (if r = r' then Quiet else Overlap)"
| "observe ob fl = Overlap"

definition serial :: "'r observation list \<Rightarrow> bool" where
  "serial os = (fold observe os Quiet \<noteq> Overlap)"

text \<open>
  A schedule is calm when no awaited \<open>process()\<close> rejects and no response is handled
  while the drain loop has returned but the flag is still set.
\<close>

fun calm :: "'r event list \<Rightarrow> 'r responseQueue \<Rightarrow> bool" where
  "calm [] q = True"
| "calm (Handle r # es) q = (drain q \<noteq> Returning \<and> calm es (step (Handle r) q))"
| "calm (Reject # es) q = False"
| "calm (e # es) q = calm es (step e q)"

text \<open>Invariants of the queue used in the proofs below.\<close>

fun inFlight :: "'r drain \<Rightarrow> 'r flight" where
  "inFlight (InProcess r) = Flying r"
| "inFlight d = Quiet"

fun awaited :: "'r drain \<Rightarrow> 'r list" where
  "awaited (InProcess r) = [r]"
| "awaited d = []"

definition tracked :: "'r responseQueue \<Rightarrow> bool" where
  "tracked q =
     (fold observe (observed q) Quiet = inFlight (drain q)
      \<and> (drain q \<noteq> NoDrain \<longrightarrow> processing q))"

definition healthy :: "'r responseQueue \<Rightarrow> bool" where
  "healthy q =
     ((case drain q of
         NoDrain \<Rightarrow> \<not> processing q \<and> queue q = []
       | InProcess r \<Rightarrow> processing q
       | Returning \<Rightarrow> processing q \<and> queue q = [])
      \<and> started (observed q) = finished (observed q) @ awaited (drain q))"

text \<open>\<open>handlePrefetch\<close> reads the page store and hands the response to the queue.\<close>

definition handlePrefetch ::
  "response \<Rightarrow> world \<times> response responseQueue \<Rightarrow> world \<times> response responseQueue" where
  "handlePrefetch r s =
     (case s of (w, q) \<Rightarrow>
        if component (currentPage w) = component (data (response r)) then (w, handle r q)
        else (w, q))"

section \<open>The Initial-Visit Resolver (initialVisit.ts)\<close>

text \<open>
  Modelled from the spec: the page store's \<open>setUrlHash\<close>, \<open>remember\<close> and
  \<open>scrollRegions\<close> (page.ts) and the History adapter's \<open>deleteState\<close> and \<open>getState\<close>
  with a default (history.ts) are not among the files verified here. They set the hash of
  the current page's URL, attach remembered state and scroll regions to the current page,
  delete a key of the current history entry, and read a key or the default.
\<close>

definition currentPage_setUrlHash :: "env \<Rightarrow> string \<Rightarrow> world \<Rightarrow> world" where
  "currentPage_setUrlHash e h w =
     emit [SetUrlHash h] (w\<lparr>currentPage := (currentPage w)\<lparr>url := urlWithHash e h (url (currentPage w))\<rparr>\<rparr>)"

definition currentPage_remember :: "jsobject \<Rightarrow> world \<Rightarrow> world" where
  "currentPage_remember st w = w\<lparr>currentPage := (currentPage w)\<lparr>rememberedState := Some st\<rparr>\<rparr>"

definition currentPage_scrollRegions :: "(int \<times> int) list \<Rightarrow> world \<Rightarrow> world" where
  "currentPage_scrollRegions regions w =
     w\<lparr>currentPage := (currentPage w)\<lparr>scrollRegions := Some regions\<rparr>\<rparr>"

definition History_deleteRememberedState :: "world \<Rightarrow> world" where
  "History_deleteRememberedState w = w\<lparr>History_rememberedState := None\<rparr>"

definition getStateOr :: "'a option \<Rightarrow> 'a \<Rightarrow> 'a" where
  "getStateOr stored dflt = (case stored of None \<Rightarrow> dflt | Some v \<Rightarrow> v)"

definition clearRememberedStateOnReload :: "world \<Rightarrow> world" where
  "clearRememberedStateOnReload w =
     (if navigationType w = Reload then History_deleteRememberedState w else w)"

text \<open>
  Each scenario returns what the source returns to \<open>find\<close> together with the world it
  leaves. The \<open>then\<close> and \<open>catch\<close> callbacks of \<open>history.decrypt()\<close> run after the
  scenario has returned; nothing else of the resolver runs in between, so their effects
  follow here directly.
\<close>

definition handleBackForward :: "env \<Rightarrow> world \<Rightarrow> bool \<times> world" where
  "handleBackForward e w =
     (if navigationType w \<noteq> BackForward \<or> \<not> History_hasAnyState w then (False, w)
      else
        (let w1 = emit [HistoryDecrypt] w in
         case History_decrypt w1 of
           None \<Rightarrow> (True, emit [MissingHistoryItem] w1)
         | Some restored \<Rightarrow>
             (let w2 = currentPage_set restored
                         \<lparr>opt_replace = False, opt_preserveScroll = True, opt_preserveState = True\<rparr> w1
              in (True, emit [ScrollRestore (currentPage w2), NavigateEvent (currentPage w2)] w2))))"

definition handleLocation :: "env \<Rightarrow> world \<Rightarrow> bool \<times> world" where
  "handleLocation e w =
     (if SessionStorage_locationVisit w = None then (False, w)
      else
        (let locationVisit_preserveScroll = getStateOr (SessionStorage_locationVisit w) False;
             w1 = emit [SessionRemove] (w\<lparr>SessionStorage_locationVisit := None\<rparr>);
             w2 = currentPage_setUrlHash e (window_location_hash w1) w1;
             w3 = emit [HistoryDecrypt] w2
         in case History_decrypt w3 of
              None \<Rightarrow> (True, emit [MissingHistoryItem] w3)
            | Some restored \<Rightarrow>
                (let remembered = getStateOr (History_rememberedState w3) [];
                     regions = getStateOr (History_scrollRegions w3) [];
                     w4 = currentPage_scrollRegions regions (currentPage_remember remembered w3);
                     w5 = currentPage_set (currentPage w4)
                            \<lparr>opt_replace = False,
                             opt_preserveScroll = locationVisit_preserveScroll,
                             opt_preserveState = True\<rparr> w4;
                     w6 = (if locationVisit_preserveScroll
                           then emit [ScrollRestore (currentPage w5)] w5 else w5)
                 in (True, emit [NavigateEvent (currentPage w6)] w6))))"

text \<open>\<open>handleDefault\<close> returns nothing, which \<open>find\<close> reads as false.\<close>

definition handleDefault :: "env \<Rightarrow> world \<Rightarrow> bool \<times> world" where
  "handleDefault e w =
     (let w1 = currentPage_setUrlHash e (window_location_hash w) w;
          w2 = currentPage_set (currentPage w1)
                 \<lparr>opt_replace = False, opt_preserveScroll = False, opt_preserveState = True\<rparr> w1
      in (False, emit [NavigateEvent (currentPage w2)] w2))"

text \<open>\<open>scenarios.find(handler)\<close>: the handlers are called in order until one returns true.\<close>

fun findScenario :: "(world \<Rightarrow> bool \<times> world) list \<Rightarrow> world \<Rightarrow> world" where
  "findScenario [] w = w"
| "findScenario (handler # rest) w =
     (case handler w of (found, w') \<Rightarrow> if found then w' else findScenario rest w')"

definition InitialVisit_handle :: "env \<Rightarrow> world \<Rightarrow> world" where
  "InitialVisit_handle e w =
     findScenario [handleBackForward e, handleLocation e, handleDefault e]
       (clearRememberedStateOnReload w)"

section \<open>The merge policy in the specification's words\<close>

text \<open>
  The specification's prop merge policy for one mergeable prop, as a function of the
  prior and the incoming value: two arrays are concatenated, prior first; two plain
  objects are merged shallowly, incoming keys winning; otherwise the incoming value
  replaces the prior one.
\<close>

fun spec_mergedProp :: "jsval option \<Rightarrow> jsval \<Rightarrow> jsval" where
  "spec_mergedProp (Some (JArr prior)) (JArr incoming) = JArr (prior @ incoming)"
| "spec_mergedProp (Some (JObj prior)) (JObj incoming) = JObj (objAssign prior incoming)"
| "spec_mergedProp prior incoming = incoming"

text \<open>
  The pairs of a prior value, as the code reads it, and an incoming value on which the
  code's merge of one prop is the policy's: an incoming array over a prior array or over
  an absent or falsy prior; an incoming plain object over any prior but a non-empty array
  or a non-empty string; an incoming boolean, number or string over any prior.
\<close>

fun kindsAgree :: "jsval option \<Rightarrow> jsval \<Rightarrow> bool" where
  "kindsAgree None (JArr incoming) = True"
| "kindsAgree (Some (JArr prior)) (JArr incoming) = True"
| "kindsAgree (Some prior) (JArr incoming) = (\<not> truthy prior)"
| "kindsAgree (Some (JArr prior)) (JObj incoming) = (prior = [])"
| "kindsAgree (Some (JStr prior)) (JObj incoming) = (prior = [])"
| "kindsAgree prior (JObj incoming) = True"
| "kindsAgree prior JNull = False"
| "kindsAgree prior JObjectPrototype = False"
| "kindsAgree prior incoming = True"

text \<open>The array spread of the prior value (or \<open>[]\<close>) does not throw.\<close>

definition iterablePrior :: "jsval option \<Rightarrow> bool" where
  "iterablePrior prior =
     (case spreadIterable (orEmptyArray prior) of Inl err \<Rightarrow> False | Inr xs \<Rightarrow> True)"

text \<open>An object has each key once.\<close>

definition distinctKeys :: "jsobject \<Rightarrow> bool" where
  "distinctKeys kvs = distinct (map fst kvs)"

fun wellFormed :: "jsval option \<Rightarrow> bool" where
  "wellFormed (Some (JObj kvs)) = distinctKeys kvs"
| "wellFormed v = True"

section \<open>Concrete pages, visits and worlds\<close>

definition usersPage :: page where
  "usersPage =
     \<lparr>component = ''Users/Index'', props = [(''a'', JArr [JNum 1, JNum 2])],
      url = ''https://app.test/users?page=1'', version = Some ''v1'',
      rememberedState = None, scrollRegions = None, mergePropNames = None\<rparr>"

definition syncVisit :: requestParams where
  "syncVisit =
     \<lparr>visitUrl = ''https://app.test/users'', async = False, prefetch = False,
      preserveUrl = False, preserveScroll = False, preserveState = False, replace = False,
      errorBag = None, isPartial = False\<rparr>"

definition okResponse :: "page \<Rightarrow> axiosResponse" where
  "okResponse p = \<lparr>status = 200, headers = [(''x-inertia'', ''true'')], data = p\<rparr>"

definition usersResponse :: response where
  "usersResponse =
     \<lparr>requestParams = syncVisit, response = okResponse usersPage, originatingPage = usersPage\<rparr>"

definition startWorld :: world where
  "startWorld =
     \<lparr>currentPage = usersPage, History_preserveUrl = False,
      History_rememberedState = Some [(''form'', JStr ''draft'')],
      History_scrollRegions = None, History_hasAnyState = True, History_decrypt = None,
      SessionStorage_locationVisit = None, SessionStorage_writable = True,
      navigationType = Navigate, window_location_hash = ''#top'', trace = []\<rparr>"

text \<open>
  An environment whose \<open>hrefToUrl\<close> knows the URLs used below: pages two and one of
  \<open>/users\<close>, the page \<open>/posts\<close>, and everything else as page one of \<open>/users\<close>.
\<close>

definition testUrl :: "string \<Rightarrow> URL" where
  "testUrl s =
     (if s = ''https://app.test/users?page=2'' then
        \<lparr>origin = ''https://app.test'', pathname = ''/users'', search = ''?page=2'',
         hash = [], href = s\<rparr>
      else if s = ''https://app.test/posts'' then
        \<lparr>origin = ''https://app.test'', pathname = ''/posts'', search = [], hash = [], href = s\<rparr>
      else
        \<lparr>origin = ''https://app.test'', pathname = ''/users'', search = ''?page=1'',
         hash = [], href = s\<rparr>)"

definition testEnv :: env where
  "testEnv =
     \<lparr>hrefToUrl = testUrl, setHashIfSameUrl = (\<lambda>u target. target),
      isSameUrlWithoutHash = (\<lambda>a b. origin a = origin b \<and> pathname a = pathname b \<and> search a = search b),
      window_location = testUrl ''https://app.test/users?page=1'',
      setPreserveOptions = (\<lambda>p params. params), fireInvalidEvent = (\<lambda>resp. True),
      urlWithHash = (\<lambda>h u. u @ h)\<rparr>"

definition asyncUsers :: response where
  "asyncUsers = usersResponse\<lparr>requestParams := syncVisit\<lparr>async := True\<rparr>\<rparr>"

definition elsewhere :: world where
  "elsewhere = startWorld\<lparr>currentPage := usersPage\<lparr>component := ''Posts/Index''\<rparr>\<rparr>"

definition prefetchUsers :: response where
  "prefetchUsers = usersResponse\<lparr>requestParams := syncVisit\<lparr>prefetch := True\<rparr>\<rparr>"

definition keepStateUsers :: response where
  "keepStateUsers = usersResponse\<lparr>requestParams := syncVisit\<lparr>preserveState := True\<rparr>\<rparr>"

definition invalidPage :: page where
  "invalidPage = usersPage\<lparr>props :=
     [(''errors'', JObj [(''login'', JObj [(''email'', JStr ''taken'')])])]\<rparr>"

definition loginVisit :: requestParams where
  "loginVisit = syncVisit\<lparr>errorBag := Some ''login'', preserveUrl := True\<rparr>"

definition invalidResponse :: response where
  "invalidResponse =
     \<lparr>requestParams = loginVisit, response = okResponse invalidPage, originatingPage = usersPage\<rparr>"

definition partialVisit :: requestParams where
  "partialVisit = syncVisit\<lparr>isPartial := True\<rparr>"

definition partialResponse :: "page \<Rightarrow> response" where
  "partialResponse p =
     \<lparr>requestParams = partialVisit, response = okResponse p, originatingPage = usersPage\<rparr>"

definition appendPage :: page where
  "appendPage = usersPage\<lparr>props := [(''a'', JArr [JNum 3])], mergePropNames := Some [''a'']\<rparr>"

definition objectPage :: page where
  "objectPage =
     usersPage\<lparr>props := [(''a'', JObj [(''y'', JNum 2)])], mergePropNames := Some [''a'']\<rparr>"

definition objectWorld :: world where
  "objectWorld = startWorld\<lparr>currentPage := usersPage\<lparr>props := [(''a'', JObj [(''x'', JNum 1)])]\<rparr>\<rparr>"

definition unscopedErrors :: jsobject where
  "unscopedErrors = [(''login'', JStr ''oops''), (''note'', JStr [])]"

definition constructorVisit :: response where
  "constructorVisit =
     invalidResponse\<lparr>requestParams := loginVisit\<lparr>errorBag := Some ''constructor''\<rparr>\<rparr>"

definition mixedPage :: page where
  "mixedPage =
     usersPage\<lparr>props := [(''a'', JArr [JNum 3]), (''b'', JObj [(''y'', JNum 2)]),
                         (''c'', JStr ''new''), (''d'', JNum 7)],
                mergePropNames := Some [''a'', ''b'', ''c'', ''b'', ''c'']\<rparr>"

definition twicePage :: page where
  "twicePage = appendPage\<lparr>mergePropNames := Some [''a'', ''a'']\<rparr>"

definition constructorPage :: page where
  "constructorPage =
     usersPage\<lparr>props := [(''constructor'', JArr [JNum 3])],
                mergePropNames := Some [''constructor'']\<rparr>"

definition mixedWorld :: world where
  "mixedWorld =
     startWorld\<lparr>currentPage := usersPage\<lparr>props :=
       [(''a'', JArr [JNum 1, JNum 2]), (''b'', JNum 5), (''c'', JObj [(''x'', JNum 1)]),
        (''e'', JBool True)]\<rparr>\<rparr>"

definition resumeWorld :: world where
  "resumeWorld = startWorld\<lparr>SessionStorage_locationVisit := Some True\<rparr>"

definition backWorld :: world where
  "backWorld = resumeWorld\<lparr>navigationType := BackForward\<rparr>"

definition reloadWorld :: world where
  "reloadWorld = startWorld\<lparr>navigationType := Reload\<rparr>"

lemmas fixture_defs = usersPage_def syncVisit_def okResponse_def usersResponse_def
  startWorld_def asyncUsers_def elsewhere_def prefetchUsers_def keepStateUsers_def
  invalidPage_def loginVisit_def invalidResponse_def partialVisit_def partialResponse_def
  appendPage_def objectPage_def objectWorld_def resumeWorld_def backWorld_def reloadWorld_def
  unscopedErrors_def constructorVisit_def mixedPage_def mixedWorld_def twicePage_def
  constructorPage_def

lemmas queue_defs = handle_def ResponseQueue_add_def ResponseQueue_process_def processQueue_def
  processResolved_def processRejected_def drainReturned_def

section \<open>The staleness policy\<close>

text \<open>
  C1. \<open>shouldSetPage\<close> follows the truth table: a synchronous visit always applies; an
  async visit whose response names another component than the originating page applies;
  otherwise, when the current page's component has diverged from the originating page's,
  the response is discarded; otherwise it is discarded exactly when the originating and
  the current URL differ in origin or pathname, so that a difference in the query string
  alone still applies it.
\<close>

theorem shouldSetPage_truth_table:
  "(\<not> async (requestParams r) \<longrightarrow> shouldSetPage e r w p)
   \<and> (async (requestParams r) \<and> component (originatingPage r) \<noteq> component p
        \<longrightarrow> shouldSetPage e r w p)
   \<and> (async (requestParams r) \<and> component (originatingPage r) = component p
        \<and> component (originatingPage r) \<noteq> component (currentPage w)
        \<longrightarrow> \<not> shouldSetPage e r w p)
   \<and> (async (requestParams r) \<and> component (originatingPage r) = component p
        \<and> component (originatingPage r) = component (currentPage w)
        \<longrightarrow> (\<not> shouldSetPage e r w p) =
             (origin (hrefToUrl e (url (originatingPage r)))
                \<noteq> origin (hrefToUrl e (url (currentPage w)))
              \<or> pathname (hrefToUrl e (url (originatingPage r)))
                \<noteq> pathname (hrefToUrl e (url (currentPage w)))))
   \<and> (async (requestParams r) \<and> component (originatingPage r) = component p
        \<and> component (originatingPage r) = component (currentPage w)
        \<and> origin (hrefToUrl e (url (originatingPage r)))
            = origin (hrefToUrl e (url (currentPage w)))
        \<and> pathname (hrefToUrl e (url (originatingPage r)))
            = pathname (hrefToUrl e (url (currentPage w)))
        \<and> search (hrefToUrl e (url (originatingPage r)))
            \<noteq> search (hrefToUrl e (url (currentPage w)))
        \<longrightarrow> shouldSetPage e r w p)"
  by (auto simp: shouldSetPage_def Let_def)

theorem shouldSetPage_truth_table_witness:
  "shouldSetPage testEnv usersResponse elsewhere usersPage
   \<and> shouldSetPage testEnv asyncUsers startWorld (usersPage\<lparr>component := ''Users/Show''\<rparr>)
   \<and> \<not> shouldSetPage testEnv asyncUsers elsewhere usersPage
   \<and> \<not> shouldSetPage testEnv asyncUsers
         (startWorld\<lparr>currentPage := usersPage\<lparr>url := ''https://app.test/posts''\<rparr>\<rparr>) usersPage
   \<and> shouldSetPage testEnv asyncUsers
         (startWorld\<lparr>currentPage := usersPage\<lparr>url := ''https://app.test/users?page=2''\<rparr>\<rparr>)
         usersPage"
  using
    shouldSetPage_truth_table [where r = usersResponse and e = testEnv and p = usersPage
      and w = elsewhere]
    shouldSetPage_truth_table [where r = asyncUsers and e = testEnv and w = startWorld
      and p = "usersPage\<lparr>component := ''Users/Show''\<rparr>"]
    shouldSetPage_truth_table [where r = asyncUsers and e = testEnv and p = usersPage
      and w = elsewhere]
    shouldSetPage_truth_table [where r = asyncUsers and e = testEnv and p = usersPage
      and w = "startWorld\<lparr>currentPage := usersPage\<lparr>url := ''https://app.test/posts''\<rparr>\<rparr>"]
    shouldSetPage_truth_table [where r = asyncUsers and e = testEnv and p = usersPage
      and w = "startWorld\<lparr>currentPage := usersPage\<lparr>url := ''https://app.test/users?page=2''\<rparr>\<rparr>"]
  by (simp add: asyncUsers_def usersResponse_def syncVisit_def usersPage_def startWorld_def
      elsewhere_def testEnv_def testUrl_def okResponse_def)

section \<open>The prefetch path\<close>

text \<open>
  C5. When the request parameters have the prefetch flag set, \<open>process\<close> leaves the
  page store as it is: it resolves, the world changes only by the three recorded calls
  (\<open>onPrefetched\<close>, the prefetched event, \<open>onPrefetchResponse\<close>, in that order), and
  neither the classification of the response nor the page commit runs.
\<close>

theorem process_prefetch_leaves_page_store:
  "prefetch (requestParams r) \<Longrightarrow>
     process e r w =
       (Resolved, r\<lparr>requestParams := (requestParams r)\<lparr>prefetch := False\<rparr>\<rparr>,
        w\<lparr>trace := trace w @ [OnPrefetched, PrefetchedEvent, OnPrefetchResponse]\<rparr>)
     \<and> currentPage (snd (snd (process e r w))) = currentPage w
     \<and> trace (snd (snd (process e r w))) =
         trace w @ [OnPrefetched, PrefetchedEvent, OnPrefetchResponse]"
  by (simp add: process_def emit_def)

theorem process_prefetch_leaves_page_store_witness:
  "prefetch (requestParams prefetchUsers)
   \<and> currentPage (snd (snd (process testEnv prefetchUsers elsewhere))) = currentPage elsewhere
   \<and> trace (snd (snd (process testEnv prefetchUsers elsewhere))) =
       [OnPrefetched, PrefetchedEvent, OnPrefetchResponse]"
proof -
  have h: "prefetch (requestParams prefetchUsers)"
    by (simp add: prefetchUsers_def)
  have t: "trace elsewhere = []"
    by (simp add: elsewhere_def startWorld_def)
  show ?thesis
    using h t process_prefetch_leaves_page_store [OF h, of testEnv elsewhere] by simp
qed

section \<open>The prop merge policy\<close>

lemma update_fresh: "k \<notin> fst ` set t \<Longrightarrow> AList.update k v t = t @ [(k, v)]"
  by (induction t) auto

lemma objAssign_Cons: "objAssign t ((k, v) # s) = objAssign (AList.update k v t) s"
  by (simp add: objAssign_def)

lemma objAssign_Nil: "objAssign t [] = t"
  by (simp add: objAssign_def)

lemma objAssign_append:
  "distinct (map fst (t @ s)) \<Longrightarrow> objAssign t s = t @ s"
proof (induction s arbitrary: t)
  case Nil
  then show ?case by (simp add: objAssign_Nil)
next
  case (Cons a s)
  obtain k v where a: "a = (k, v)" by (cases a)
  have fresh: "k \<notin> fst ` set t" using Cons.prems a by auto
  have "distinct (map fst ((t @ [(k, v)]) @ s))" using Cons.prems a by auto
  then have "objAssign (t @ [(k, v)]) s = (t @ [(k, v)]) @ s" by (rule Cons.IH)
  then show ?case using a fresh by (simp add: objAssign_Cons update_fresh)
qed

lemma objAssign_empty: "distinctKeys s \<Longrightarrow> objAssign [] s = s"
  using objAssign_append [of "[]" s] by (simp add: distinctKeys_def)

lemma map_of_objAssign:
  "distinct (map fst s) \<Longrightarrow>
     map_of (objAssign t s) k = (case map_of s k of None \<Rightarrow> map_of t k | Some v \<Rightarrow> Some v)"
proof (induction s arbitrary: t)
  case Nil
  then show ?case by (simp add: objAssign_Nil)
next
  case (Cons a s)
  obtain k' v' where a: "a = (k', v')" by (cases a)
  have d: "distinct (map fst s)" and fresh: "k' \<notin> fst ` set s" using Cons.prems a by auto
  have none: "map_of s k' = None" using fresh by (simp add: map_of_eq_None_iff)
  show ?case
    using Cons.IH [OF d, of "AList.update k' v' t"] a none
    by (auto simp: objAssign_Cons update_conv' split: option.splits)
qed

lemma update_keys_in: "k \<in> fst ` set t \<Longrightarrow> map fst (AList.update k v t) = map fst t"
  by (induction t) auto

lemma objAssign_keys:
  "distinct (map fst s) \<Longrightarrow>
     map fst (objAssign t s) = map fst t @ filter (\<lambda>k. k \<notin> fst ` set t) (map fst s)"
proof (induction s arbitrary: t)
  case Nil
  then show ?case by (simp add: objAssign_Nil)
next
  case (Cons a s)
  obtain k v where a: "a = (k, v)" by (cases a)
  have d: "distinct (map fst s)" and ks: "k \<notin> fst ` set s" using Cons.prems a by auto
  show ?case
  proof (cases "k \<in> fst ` set t")
    case True
    have "set (map fst (AList.update k v t)) = set (map fst t)"
      using update_keys_in [OF True, of v] by simp
    then have same: "fst ` set (AList.update k v t) = fst ` set t"
      by simp
    have "map fst (objAssign t (a # s)) = map fst (objAssign (AList.update k v t) s)"
      by (simp add: a objAssign_Cons)
    also have "\<dots> = map fst (AList.update k v t)
        @ filter (\<lambda>x. x \<notin> fst ` set (AList.update k v t)) (map fst s)"
      using d by (rule Cons.IH)
    also have "\<dots> = map fst t @ filter (\<lambda>x. x \<notin> fst ` set t) (map fst s)"
      by (simp only: same update_keys_in [OF True])
    also have "\<dots> = map fst t @ filter (\<lambda>k. k \<notin> fst ` set t) (map fst (a # s))"
      using True a by simp
    finally show ?thesis .
  next
    case False
    have f: "filter (\<lambda>x. x \<notin> fst ` set (t @ [(k, v)])) (map fst s)
           = filter (\<lambda>x. x \<notin> fst ` set t) (map fst s)"
      using ks by (intro filter_cong) auto
    have "map fst (objAssign t (a # s)) = map fst (objAssign (t @ [(k, v)]) s)"
      using False by (simp add: a objAssign_Cons update_fresh)
    also have "\<dots> = map fst (t @ [(k, v)])
        @ filter (\<lambda>x. x \<notin> fst ` set (t @ [(k, v)])) (map fst s)"
      using d by (rule Cons.IH)
    also have "\<dots> = map fst t @ filter (\<lambda>k. k \<notin> fst ` set t) (map fst (a # s))"
      using False a by (simp only: f) simp
    finally show ?thesis .
  qed
qed

lemma objAssign_distinct: "distinct (map fst t) \<Longrightarrow> distinct (map fst (objAssign t s))"
proof (induction s arbitrary: t)
  case Nil
  then show ?case by (simp add: objAssign_Nil)
next
  case (Cons a s)
  obtain k v where a: "a = (k, v)" by (cases a)
  show ?case using Cons a by (simp add: objAssign_Cons distinct_update)
qed

lemma alist_eqI:
  "distinct (map fst x) \<Longrightarrow> map fst x = map fst y \<Longrightarrow> map_of x = map_of y \<Longrightarrow> x = y"
proof (induction x arbitrary: y)
  case Nil
  then show ?case by simp
next
  case (Cons a x)
  obtain k v where a: "a = (k, v)" by (cases a)
  from Cons.prems(2) a obtain v' y' where y: "y = (k, v') # y'" and keys: "map fst x = map fst y'"
    by (cases y) auto
  from Cons.prems(3) have "map_of (a # x) k = map_of y k" by (rule fun_cong)
  then have v: "v = v'" using a y by simp
  have fx: "k \<notin> fst ` set x" using Cons.prems(1) a by auto
  have "set (map fst x) = set (map fst y')" using keys by simp
  then have fy: "k \<notin> fst ` set y'" using fx by simp
  have "map_of x = map_of y'"
  proof
    fix j
    show "map_of x j = map_of y' j"
    proof (cases "j = k")
      case True
      have "map_of x k = None" using fx by (simp add: map_of_eq_None_iff)
      moreover have "map_of y' k = None" using fy by (simp add: map_of_eq_None_iff)
      ultimately show ?thesis using True by simp
    next
      case False
      from Cons.prems(3) have "map_of (a # x) j = map_of y j" by (rule fun_cong)
      then show ?thesis using False a y by simp
    qed
  qed
  moreover have "distinct (map fst x)" using Cons.prems(1) by simp
  ultimately have "x = y'" using keys by (rule_tac Cons.IH)
  then show ?case using a y v by simp
qed

lemma objAssign_idem:
  assumes "distinct (map fst a)" and "distinct (map fst b)"
  shows "objAssign a (objAssign a b) = objAssign a b"
proof (rule alist_eqI)
  let ?c = "objAssign a b"
  have dc: "distinct (map fst ?c)" using assms(1) by (rule objAssign_distinct)
  show "distinct (map fst (objAssign a ?c))" using assms(1) by (rule objAssign_distinct)
  have kc: "map fst ?c = map fst a @ filter (\<lambda>k. k \<notin> fst ` set a) (map fst b)"
    using assms(2) by (rule objAssign_keys)
  have k2: "map fst (objAssign a ?c) = map fst a @ filter (\<lambda>k. k \<notin> fst ` set a) (map fst ?c)"
    using dc by (rule objAssign_keys)
  have "filter (\<lambda>k. k \<notin> fst ` set a) (map fst a) = []"
    by (simp add: filter_empty_conv)
  then have "filter (\<lambda>k. k \<notin> fst ` set a) (map fst ?c) = filter (\<lambda>k. k \<notin> fst ` set a) (map fst b)"
    by (simp only: kc filter_append filter_filter) simp
  then show "map fst (objAssign a ?c) = map fst ?c" using kc k2 by simp
  show "map_of (objAssign a ?c) = map_of ?c"
  proof
    fix j
    have sub: "map_of ?c j = None \<Longrightarrow> map_of a j = None"
      by (simp add: map_of_objAssign [OF assms(2)] split: option.splits)
    show "map_of (objAssign a ?c) j = map_of ?c j"
    proof (cases "map_of ?c j")
      case None
      then show ?thesis using sub by (simp add: map_of_objAssign [OF dc])
    next
      case (Some v)
      then show ?thesis by (simp add: map_of_objAssign [OF dc])
    qed
  qed
qed

lemma spread2_empty:
  "ownProperties prior = [] \<Longrightarrow> distinctKeys b \<Longrightarrow> spread2 prior (JObj b) = b"
  by (simp add: spread2_def objAssign_Nil objAssign_empty)

lemma spread2_objects:
  "distinctKeys a \<Longrightarrow> spread2 (JObj a) (JObj b) = objAssign a b"
  by (simp add: spread2_def objAssign_empty)

lemma readProp_own: "map_of (own obj) k = Some v \<Longrightarrow> readProp obj k = Some v"
  by (simp add: readProp_def)

lemma writeProp_own:
  "map_of (own obj) k = Some v \<Longrightarrow> writeProp k v' obj = obj\<lparr>own := AList.update k v' (own obj)\<rparr>"
  by (simp add: writeProp_def reachesSetter_def)

lemma writeProp_other: "k \<noteq> p \<Longrightarrow> map_of (own (writeProp p v obj)) k = map_of (own obj) k"
  by (auto simp: writeProp_def update_conv' split: jsval.splits)

lemma writeProp_distinct:
  "distinct (map fst (own obj)) \<Longrightarrow> distinct (map fst (own (writeProp p v obj)))"
  by (auto simp: writeProp_def distinct_update split: jsval.splits)

lemma writeProp_prototype:
  "p \<noteq> ''__proto__'' \<Longrightarrow> prototype (writeProp p v obj) = prototype obj"
  by (simp add: writeProp_def reachesSetter_def)

lemma mergeProp_other:
  "mergeProp current p incoming = Inr incoming' \<Longrightarrow> k \<noteq> p \<Longrightarrow>
     map_of (own incoming') k = map_of (own incoming) k"
  by (auto simp: mergeProp_def writeProp_other split: option.splits if_splits sum.splits)

lemma mergeProp_distinct:
  "mergeProp current p incoming = Inr incoming' \<Longrightarrow> distinct (map fst (own incoming)) \<Longrightarrow>
     distinct (map fst (own incoming'))"
  by (auto simp: mergeProp_def writeProp_distinct split: option.splits if_splits sum.splits)

lemma mergeProp_prototype:
  "mergeProp current p incoming = Inr incoming' \<Longrightarrow> p \<noteq> ''__proto__'' \<Longrightarrow>
     prototype incoming' = prototype incoming"
  by (auto simp: mergeProp_def writeProp_prototype split: option.splits if_splits sum.splits)

lemma mergeProp_absent:
  "map_of (own incoming) k = None \<Longrightarrow> prototype incoming = None \<Longrightarrow> k \<noteq> ''__proto__'' \<Longrightarrow>
     mergeProp current k incoming = Inr incoming"
  by (simp add: mergeProp_def readProp_def getProperty_def inheritedMethod_def)

lemma mergeProp_array_was_array:
  assumes "mergeProp current p incoming = Inr incoming'"
    and "map_of (own incoming') p = Some (JArr ys)"
    and "prototype incoming = None" and "p \<noteq> ''__proto__''"
  shows "\<exists>ys'. map_of (own incoming) p = Some (JArr ys')"
proof (cases "map_of (own incoming) p")
  case None
  then have "mergeProp current p incoming = Inr incoming"
    using assms(3,4) by (rule mergeProp_absent)
  then show ?thesis using assms(1,2) None by simp
next
  case (Some v)
  then show ?thesis using assms(1,2)
    by (cases v)
       (auto simp: mergeProp_def readProp_own writeProp_own update_conv'
             split: sum.splits if_splits)
qed

lemma mergeProp_agrees:
  assumes "map_of (own incoming) k = Some v"
    and "kindsAgree (getProperty current k) v"
    and "wellFormed (getProperty current k)" and "wellFormed (Some v)"
    and "mergeProp current k incoming = Inr incoming'"
  shows "map_of (own incoming') k = Some (spec_mergedProp (getProperty current k) v)"
proof (cases v)
  case JNull
  then show ?thesis using assms by simp
next
  case (JBool b)
  then show ?thesis using assms by (auto simp: mergeProp_def readProp_own)
next
  case (JNum n)
  then show ?thesis using assms by (auto simp: mergeProp_def readProp_own)
next
  case (JStr s)
  then show ?thesis using assms by (auto simp: mergeProp_def readProp_own)
next
  case (JArr ys)
  show ?thesis
  proof (cases "getProperty current k")
    case None
    then show ?thesis using assms JArr
      by (auto simp: mergeProp_def readProp_own writeProp_own update_conv')
  next
    case (Some prior)
    then show ?thesis using assms JArr
      by (cases prior) (auto simp: mergeProp_def readProp_own writeProp_own update_conv')
  qed
next
  case (JObj b)
  show ?thesis
  proof (cases "getProperty current k")
    case None
    then show ?thesis using assms JObj
      by (auto simp: mergeProp_def readProp_own writeProp_own update_conv' spread2_empty)
  next
    case (Some prior)
    then show ?thesis using assms JObj
      by (cases prior)
         (auto simp: mergeProp_def readProp_own writeProp_own update_conv' spread2_empty
            spread2_objects)
  qed
next
  case (JFunction f)
  then show ?thesis using assms by (auto simp: mergeProp_def readProp_own)
next
  case JObjectPrototype
  then show ?thesis using assms by simp
qed

lemma mergeEach_untouched:
  "k \<notin> set ps \<Longrightarrow> mergeEach current ps incoming = Inr incoming' \<Longrightarrow>
     map_of (own incoming') k = map_of (own incoming) k"
proof (induction ps arbitrary: incoming)
  case Nil
  then show ?case by simp
next
  case (Cons p ps)
  from Cons.prems(2) obtain mid where
    step: "mergeProp current p incoming = Inr mid" and rest: "mergeEach current ps mid = Inr incoming'"
    by (auto split: sum.splits)
  have "k \<noteq> p" and "k \<notin> set ps" using Cons.prems(1) by auto
  then show ?case using Cons.IH [of mid] rest mergeProp_other [OF step] by simp
qed

lemma mergeEach_distinct:
  "mergeEach current ps incoming = Inr incoming' \<Longrightarrow> distinct (map fst (own incoming)) \<Longrightarrow>
     distinct (map fst (own incoming'))"
proof (induction ps arbitrary: incoming)
  case Nil
  then show ?case by simp
next
  case (Cons p ps)
  from Cons.prems(1) obtain mid where
    step: "mergeProp current p incoming = Inr mid" and rest: "mergeEach current ps mid = Inr incoming'"
    by (auto split: sum.splits)
  show ?case using Cons.IH [OF rest] mergeProp_distinct [OF step] Cons.prems(2) by simp
qed

lemma mergeProp_settled:
  assumes "\<not> isArray v" and "kindsAgree (getProperty current k) v"
    and "wellFormed (getProperty current k)" and "wellFormed (Some v)"
    and "map_of (own incoming) k = Some (spec_mergedProp (getProperty current k) v)"
    and "mergeProp current k incoming = Inr incoming'"
  shows "map_of (own incoming') k = Some (spec_mergedProp (getProperty current k) v)"
proof (cases v)
  case (JObj b)
  have db: "distinct (map fst b)" using assms(4) JObj by (simp add: distinctKeys_def)
  show ?thesis
  proof (cases "getProperty current k")
    case None
    then show ?thesis using assms JObj
      by (auto simp: mergeProp_def readProp_own writeProp_own update_conv' spread2_empty)
  next
    case (Some prior)
    show ?thesis
    proof (cases prior)
      case (JObj a)
      have da: "distinct (map fst a)" using assms(3) Some JObj by (simp add: distinctKeys_def)
      show ?thesis using assms \<open>v = JObj b\<close> Some JObj objAssign_idem [OF da db]
        by (auto simp: mergeProp_def readProp_own writeProp_own update_conv' spread2_objects)
    qed (use assms \<open>v = JObj b\<close> Some in
          \<open>auto simp: mergeProp_def readProp_own writeProp_own update_conv' spread2_empty\<close>)
  qed
qed (use assms in \<open>auto simp: mergeProp_def readProp_own\<close>)

lemma mergeEach_settled:
  assumes "\<not> isArray v" and "kindsAgree (getProperty current k) v"
    and "wellFormed (getProperty current k)" and "wellFormed (Some v)"
  shows "map_of (own incoming) k = Some (spec_mergedProp (getProperty current k) v) \<Longrightarrow>
         mergeEach current ps incoming = Inr incoming' \<Longrightarrow>
         map_of (own incoming') k = Some (spec_mergedProp (getProperty current k) v)"
proof (induction ps arbitrary: incoming)
  case Nil
  then show ?case by simp
next
  case (Cons p ps)
  from Cons.prems(2) obtain mid where
    step: "mergeProp current p incoming = Inr mid" and rest: "mergeEach current ps mid = Inr incoming'"
    by (auto split: sum.splits)
  have "map_of (own mid) k = Some (spec_mergedProp (getProperty current k) v)"
  proof (cases "p = k")
    case True
    then show ?thesis using mergeProp_settled [OF assms Cons.prems(1)] step by simp
  next
    case False
    then show ?thesis using mergeProp_other [OF step, of k] Cons.prems(1) by simp
  qed
  then show ?case using Cons.IH rest by simp
qed

lemma mergeEach_flagged:
  assumes "k \<in> set ps" and "isArray v \<longrightarrow> count_list ps k = 1"
    and "map_of (own incoming) k = Some v"
    and "kindsAgree (getProperty current k) v"
    and "wellFormed (getProperty current k)" and "wellFormed (Some v)"
    and "mergeEach current ps incoming = Inr incoming'"
  shows "map_of (own incoming') k = Some (spec_mergedProp (getProperty current k) v)"
  using assms(1,2,3,7)
proof (induction ps arbitrary: incoming)
  case Nil
  then show ?case by simp
next
  case (Cons p ps)
  from Cons.prems(4) obtain mid where
    step: "mergeProp current p incoming = Inr mid" and rest: "mergeEach current ps mid = Inr incoming'"
    by (auto split: sum.splits)
  show ?case
  proof (cases "p = k")
    case True
    have m: "map_of (own mid) k = Some (spec_mergedProp (getProperty current k) v)"
      using mergeProp_agrees [OF Cons.prems(3) assms(4,5,6)] step True by simp
    show ?thesis
    proof (cases "isArray v")
      case True
      then have "count_list ps k = 0" using Cons.prems(2) \<open>p = k\<close> by simp
      then have fresh: "k \<notin> set ps" by (simp add: count_list_0_iff)
      show ?thesis using mergeEach_untouched [OF fresh rest] m by simp
    next
      case False
      show ?thesis using mergeEach_settled [OF False assms(4,5,6) m rest] .
    qed
  next
    case False
    have k: "k \<in> set ps" using Cons.prems(1) False by simp
    have c: "isArray v \<longrightarrow> count_list ps k = 1" using Cons.prems(2) False by simp
    have m: "map_of (own mid) k = Some v"
      using mergeProp_other [OF step, of k] False Cons.prems(3) by simp
    show ?thesis using Cons.IH [OF k c m rest] .
  qed
qed

lemma reachesSetter_read:
  "reachesSetter obj k \<Longrightarrow>
     readProp obj k = Some JObjectPrototype \<or> (\<exists>y. readProp obj k = Some (JObj y))"
  by (auto simp: reachesSetter_def readProp_def getProperty_def split: option.splits)

lemma mergeEach_absent:
  "''__proto__'' \<notin> set ps \<Longrightarrow> prototype incoming = None \<Longrightarrow> map_of (own incoming) k = None \<Longrightarrow>
     mergeEach current ps incoming = Inr incoming' \<Longrightarrow> map_of (own incoming') k = None"
proof (induction ps arbitrary: incoming)
  case Nil
  then show ?case by simp
next
  case (Cons p ps)
  from Cons.prems(4) obtain mid where
    step: "mergeProp current p incoming = Inr mid" and rest: "mergeEach current ps mid = Inr incoming'"
    by (auto split: sum.splits)
  have np: "p \<noteq> ''__proto__''" and nps: "''__proto__'' \<notin> set ps" using Cons.prems(1) by auto
  have pr: "prototype mid = None"
    using mergeProp_prototype [OF step np] Cons.prems(2) by simp
  have "map_of (own mid) k = None"
  proof (cases "p = k")
    case True
    then have "mergeProp current p incoming = Inr incoming"
      using mergeProp_absent [OF Cons.prems(3) Cons.prems(2)] np by simp
    then show ?thesis using step Cons.prems(3) by simp
  next
    case False
    then show ?thesis using mergeProp_other [OF step, of k] Cons.prems(3) by simp
  qed
  then show ?case using Cons.IH [OF nps pr _ rest] by simp
qed

lemma mergeEach_returns:
  assumes "''__proto__'' \<notin> set ps" and "prototype incoming = None"
    and "\<forall>k\<in>set ps. \<forall>ys. map_of (own incoming) k = Some (JArr ys) \<longrightarrow>
           iterablePrior (getProperty current k)"
  shows "\<exists>incoming'. mergeEach current ps incoming = Inr incoming'"
  using assms
proof (induction ps arbitrary: incoming)
  case Nil
  then show ?case by simp
next
  case (Cons p ps)
  have np: "p \<noteq> ''__proto__''" and nps: "''__proto__'' \<notin> set ps" using Cons.prems(1) by auto
  have "\<exists>mid. mergeProp current p incoming = Inr mid"
  proof (cases "map_of (own incoming) p")
    case None
    then show ?thesis using mergeProp_absent [OF None Cons.prems(2) np] by blast
  next
    case (Some v)
    show ?thesis
    proof (cases v)
      case (JArr ys)
      then have "iterablePrior (getProperty current p)" using Cons.prems(3) Some by simp
      then show ?thesis using Some JArr
        by (auto simp: mergeProp_def readProp_own iterablePrior_def split: sum.splits)
    qed (use Some in \<open>auto simp: mergeProp_def readProp_own\<close>)
  qed
  then obtain mid where step: "mergeProp current p incoming = Inr mid" by blast
  have pr: "prototype mid = None"
    using mergeProp_prototype [OF step np] Cons.prems(2) by simp
  have hyp: "\<forall>k\<in>set ps. \<forall>ys. map_of (own mid) k = Some (JArr ys) \<longrightarrow>
           iterablePrior (getProperty current k)"
  proof (intro ballI allI impI)
    fix k ys
    assume k: "k \<in> set ps" and m: "map_of (own mid) k = Some (JArr ys)"
    show "iterablePrior (getProperty current k)"
    proof (cases "k = p")
      case True
      then obtain ys' where "map_of (own incoming) p = Some (JArr ys')"
        using mergeProp_array_was_array [OF step _ Cons.prems(2) np] m by blast
      then show ?thesis using Cons.prems(3) True by simp
    next
      case False
      then have "map_of (own incoming) k = Some (JArr ys)"
        using mergeProp_other [OF step, of k] m by simp
      then show ?thesis using Cons.prems(3) k by simp
    qed
  qed
  from Cons.IH [OF nps pr hyp] obtain incoming' where "mergeEach current ps mid = Inr incoming'"
    by blast
  then show ?case using step by simp
qed

lemma indexKey_small: "indexKey 0 = ''0''" "indexKey (Suc 0) = ''1''"
  by (simp_all add: indexKey.simps digit_def)

lemmas merge_defs = mergeProps_def propsToMerge_def mergeProp_def readProp_def writeProp_def
  reachesSetter_def getProperty_def inheritedMethod_def objectPrototypeMethods_def
  spread2_def objAssign_def

text \<open>
  C4, as amended. Props are merged only on a partial reload of the current component;
  otherwise the payload is left as it is. The merge returns when \<open>__proto__\<close> is not
  flagged and every flagged incoming array meets a prior value that can be spread. When
  it returns, only the props of the payload have changed, and for each prop: a prop of
  the payload that is flagged (an array: flagged once) and whose incoming and prior
  values agree in kind holds the specification's merged value (prior array followed by the incoming array;
  prior object overwritten by the incoming keys; otherwise the incoming value); a prop of
  the payload that is not flagged holds the incoming value; a prop absent from the
  payload holds the current value. The two examples of the specification hold as stated.
\<close>

theorem mergeProps_policy:
  "(\<not> (isPartial (requestParams r) \<and> component p = component (currentPage w))
      \<longrightarrow> mergeProps r w p = Inr p)
   \<and> (isPartial (requestParams r) \<and> component p = component (currentPage w)
       \<and> ''__proto__'' \<notin> set (propsToMerge p)
       \<and> (\<forall>k\<in>set (propsToMerge p). \<forall>ys. map_of (props p) k = Some (JArr ys) \<longrightarrow>
             iterablePrior (getProperty (props (currentPage w)) k))
      \<longrightarrow> (\<exists>p'. mergeProps r w p = Inr p'))
   \<and> (isPartial (requestParams r) \<and> component p = component (currentPage w)
       \<and> distinctKeys (props p) \<and> distinctKeys (props (currentPage w))
       \<and> mergeProps r w p = Inr p'
      \<longrightarrow> p' = p\<lparr>props := props p'\<rparr>
          \<and> (\<forall>k v. map_of (props p) k = Some v \<and> k \<in> set (propsToMerge p)
                 \<and> (isArray v \<longrightarrow> count_list (propsToMerge p) k = 1)
                 \<and> kindsAgree (getProperty (props (currentPage w)) k) v
                 \<and> wellFormed (getProperty (props (currentPage w)) k) \<and> wellFormed (Some v)
               \<longrightarrow> map_of (props p') k
                     = Some (spec_mergedProp (getProperty (props (currentPage w)) k) v))
          \<and> (\<forall>k v. map_of (props p) k = Some v \<and> k \<notin> set (propsToMerge p)
               \<longrightarrow> map_of (props p') k = Some v)
          \<and> (\<forall>k. map_of (props p) k = None
                 \<and> (k \<notin> set (propsToMerge p) \<or> ''__proto__'' \<notin> set (propsToMerge p))
               \<longrightarrow> map_of (props p') k = map_of (props (currentPage w)) k))
   \<and> (distinctKeys b \<longrightarrow>
        map_of (objAssign a b) f = (case map_of b f of None \<Rightarrow> map_of a f | Some v \<Rightarrow> Some v))
   \<and> mergeProps (partialResponse appendPage) startWorld appendPage
       = Inr (appendPage\<lparr>props := [(''a'', JArr [JNum 1, JNum 2, JNum 3])]\<rparr>)
   \<and> mergeProps (partialResponse objectPage) objectWorld objectPage
       = Inr (objectPage\<lparr>props := [(''a'', JObj [(''x'', JNum 1), (''y'', JNum 2)])]\<rparr>)"
proof (intro conjI impI)
  assume "\<not> (isPartial (requestParams r) \<and> component p = component (currentPage w))"
  then show "mergeProps r w p = Inr p"
    by (auto simp: mergeProps_def)
next
  assume a: "isPartial (requestParams r) \<and> component p = component (currentPage w)
       \<and> ''__proto__'' \<notin> set (propsToMerge p)
       \<and> (\<forall>k\<in>set (propsToMerge p). \<forall>ys. map_of (props p) k = Some (JArr ys) \<longrightarrow>
             iterablePrior (getProperty (props (currentPage w)) k))"
  have "\<exists>merged. mergeEach (props (currentPage w)) (propsToMerge p)
                    \<lparr>own = props p, prototype = None\<rparr> = Inr merged"
    by (rule mergeEach_returns) (use a in simp_all)
  then show "\<exists>p'. mergeProps r w p = Inr p'"
    using a by (auto simp: mergeProps_def)
next
  assume a: "isPartial (requestParams r) \<and> component p = component (currentPage w)
       \<and> distinctKeys (props p) \<and> distinctKeys (props (currentPage w))
       \<and> mergeProps r w p = Inr p'"
  let ?cur = "props (currentPage w)"
  let ?start = "\<lparr>own = props p, prototype = None\<rparr>"
  from a obtain merged where
    run: "mergeEach ?cur (propsToMerge p) ?start = Inr merged"
    and res: "p' = p\<lparr>props := spread2 (JObj ?cur) (JObj (own merged))\<rparr>"
    by (auto simp: mergeProps_def split: sum.splits)
  have dc: "distinctKeys ?cur" and dp: "distinct (map fst (own ?start))"
    using a by (simp_all add: distinctKeys_def)
  have dm: "distinct (map fst (own merged))"
    using mergeEach_distinct [OF run dp] .
  have look: "\<And>k. map_of (props p') k =
      (case map_of (own merged) k of None \<Rightarrow> map_of ?cur k | Some v \<Rightarrow> Some v)"
    by (simp add: res spread2_objects [OF dc] map_of_objAssign [OF dm])
  show "p' = p\<lparr>props := props p'\<rparr>"
    by (simp add: res)
  show "\<forall>k v. map_of (props p) k = Some v \<and> k \<in> set (propsToMerge p)
                 \<and> (isArray v \<longrightarrow> count_list (propsToMerge p) k = 1)
                 \<and> kindsAgree (getProperty ?cur k) v
                 \<and> wellFormed (getProperty ?cur k) \<and> wellFormed (Some v)
               \<longrightarrow> map_of (props p') k = Some (spec_mergedProp (getProperty ?cur k) v)"
  proof (intro allI impI)
    fix k v
    assume h: "map_of (props p) k = Some v \<and> k \<in> set (propsToMerge p)
                 \<and> (isArray v \<longrightarrow> count_list (propsToMerge p) k = 1)
                 \<and> kindsAgree (getProperty ?cur k) v
                 \<and> wellFormed (getProperty ?cur k) \<and> wellFormed (Some v)"
    have "map_of (own merged) k = Some (spec_mergedProp (getProperty ?cur k) v)"
      by (rule mergeEach_flagged [OF _ _ _ _ _ _ run]) (use h in simp_all)
    then show "map_of (props p') k = Some (spec_mergedProp (getProperty ?cur k) v)"
      by (simp add: look)
  qed
  show "\<forall>k v. map_of (props p) k = Some v \<and> k \<notin> set (propsToMerge p)
               \<longrightarrow> map_of (props p') k = Some v"
  proof (intro allI impI)
    fix k v
    assume h: "map_of (props p) k = Some v \<and> k \<notin> set (propsToMerge p)"
    then have "map_of (own merged) k = Some v"
      using mergeEach_untouched [OF _ run, of k] by simp
    then show "map_of (props p') k = Some v"
      by (simp add: look)
  qed
  show "\<forall>k. map_of (props p) k = None
                 \<and> (k \<notin> set (propsToMerge p) \<or> ''__proto__'' \<notin> set (propsToMerge p))
               \<longrightarrow> map_of (props p') k = map_of ?cur k"
  proof (intro allI impI)
    fix k
    assume h: "map_of (props p) k = None
                 \<and> (k \<notin> set (propsToMerge p) \<or> ''__proto__'' \<notin> set (propsToMerge p))"
    have "map_of (own merged) k = None"
    proof (cases "k \<in> set (propsToMerge p)")
      case False
      then show ?thesis using mergeEach_untouched [OF False run] h by simp
    next
      case True
      then have "''__proto__'' \<notin> set (propsToMerge p)" using h by blast
      then show ?thesis using mergeEach_absent [OF _ _ _ run, of k] h by simp
    qed
    then show "map_of (props p') k = map_of ?cur k"
      by (simp add: look)
  qed
next
  assume "distinctKeys b"
  then show "map_of (objAssign a b) f = (case map_of b f of None \<Rightarrow> map_of a f | Some v \<Rightarrow> Some v)"
    by (simp add: distinctKeys_def map_of_objAssign)
next
  show "mergeProps (partialResponse appendPage) startWorld appendPage
       = Inr (appendPage\<lparr>props := [(''a'', JArr [JNum 1, JNum 2, JNum 3])]\<rparr>)"
    by (simp add: merge_defs fixture_defs)
next
  show "mergeProps (partialResponse objectPage) objectWorld objectPage
       = Inr (objectPage\<lparr>props := [(''a'', JObj [(''x'', JNum 1), (''y'', JNum 2)])]\<rparr>)"
    by (simp add: merge_defs fixture_defs)
qed

theorem mergeProps_policy_witness:
  "mergeProps usersResponse startWorld mixedPage = Inr mixedPage
   \<and> (\<exists>p'. mergeProps (partialResponse mixedPage) mixedWorld mixedPage = Inr p'
        \<and> p' = mixedPage\<lparr>props := props p'\<rparr>
        \<and> map_of (props p') ''a'' = Some (JArr [JNum 1, JNum 2, JNum 3])
        \<and> map_of (props p') ''b'' = Some (JObj [(''y'', JNum 2)])
        \<and> map_of (props p') ''c'' = Some (JStr ''new'')
        \<and> map_of (props p') ''d'' = Some (JNum 7)
        \<and> map_of (props p') ''e'' = Some (JBool True))
   \<and> map_of (objAssign [(''x'', JNum 1), (''z'', JNum 0)] [(''z'', JNum 5)]) ''z'' = Some (JNum 5)"
proof -
  let ?r = "partialResponse mixedPage"
  let ?cur = "props (currentPage mixedWorld)"
  have np: "\<not> (isPartial (requestParams usersResponse)
                \<and> component mixedPage = component (currentPage startWorld))"
    by (simp add: usersResponse_def syncVisit_def)
  have ps: "isPartial (requestParams ?r) \<and> component mixedPage = component (currentPage mixedWorld)"
    by (simp add: fixture_defs)
  have flagged: "propsToMerge mixedPage = [''a'', ''b'', ''c'', ''b'', ''c'']"
    by (simp add: propsToMerge_def fixture_defs)
  have inc: "props mixedPage = [(''a'', JArr [JNum 3]), (''b'', JObj [(''y'', JNum 2)]),
                         (''c'', JStr ''new''), (''d'', JNum 7)]"
    and cur: "?cur = [(''a'', JArr [JNum 1, JNum 2]), (''b'', JNum 5),
                      (''c'', JObj [(''x'', JNum 1)]), (''e'', JBool True)]"
    by (simp_all add: fixture_defs)
  have ret: "''__proto__'' \<notin> set (propsToMerge mixedPage)
       \<and> (\<forall>k\<in>set (propsToMerge mixedPage). \<forall>ys. map_of (props mixedPage) k = Some (JArr ys) \<longrightarrow>
             iterablePrior (getProperty ?cur k))"
    by (simp add: flagged inc cur iterablePrior_def getProperty_def)
  have dk: "distinctKeys (props mixedPage) \<and> distinctKeys ?cur"
    by (simp add: inc cur distinctKeys_def)
  have dz: "distinctKeys [(''z'', JNum 5)]"
    by (simp add: distinctKeys_def)
  note t = mergeProps_policy [of usersResponse mixedPage startWorld _ "[(''z'', JNum 5)]"
      "[(''x'', JNum 1), (''z'', JNum 0)]" "''z''"]
  from t np have c1: "mergeProps usersResponse startWorld mixedPage = Inr mixedPage"
    by blast
  from t dz have c3: "map_of (objAssign [(''x'', JNum 1), (''z'', JNum 0)] [(''z'', JNum 5)]) ''z''
      = Some (JNum 5)"
    by simp
  note u = mergeProps_policy [of ?r mixedPage mixedWorld _ "[(''z'', JNum 5)]"
      "[(''x'', JNum 1), (''z'', JNum 0)]" "''z''"]
  from u ps ret obtain p' where m: "mergeProps ?r mixedWorld mixedPage = Inr p'"
    by blast
  note v = mergeProps_policy [of ?r mixedPage mixedWorld p' "[(''z'', JNum 5)]"
      "[(''x'', JNum 1), (''z'', JNum 0)]" "''z''"]
  from v ps dk m have same: "p' = mixedPage\<lparr>props := props p'\<rparr>"
    and once: "\<forall>k v. map_of (props mixedPage) k = Some v \<and> k \<in> set (propsToMerge mixedPage)
                 \<and> (isArray v \<longrightarrow> count_list (propsToMerge mixedPage) k = 1)
                 \<and> kindsAgree (getProperty ?cur k) v
                 \<and> wellFormed (getProperty ?cur k) \<and> wellFormed (Some v)
               \<longrightarrow> map_of (props p') k = Some (spec_mergedProp (getProperty ?cur k) v)"
    and unflagged: "\<forall>k v. map_of (props mixedPage) k = Some v \<and> k \<notin> set (propsToMerge mixedPage)
               \<longrightarrow> map_of (props p') k = Some v"
    and absent: "\<forall>k. map_of (props mixedPage) k = None
                 \<and> (k \<notin> set (propsToMerge mixedPage) \<or> ''__proto__'' \<notin> set (propsToMerge mixedPage))
               \<longrightarrow> map_of (props p') k = map_of ?cur k"
    by blast+
  have ca: "map_of (props p') ''a'' = Some (JArr [JNum 1, JNum 2, JNum 3])"
    using once [rule_format, of "''a''" "JArr [JNum 3]"]
    by (simp add: flagged inc cur getProperty_def)
  have cb: "map_of (props p') ''b'' = Some (JObj [(''y'', JNum 2)])"
    using once [rule_format, of "''b''" "JObj [(''y'', JNum 2)]"]
    by (simp add: flagged inc cur getProperty_def distinctKeys_def)
  have cc: "map_of (props p') ''c'' = Some (JStr ''new'')"
    using once [rule_format, of "''c''" "JStr ''new''"]
    by (simp add: flagged inc cur getProperty_def distinctKeys_def)
  have cd: "map_of (props p') ''d'' = Some (JNum 7)"
    using unflagged [rule_format, of "''d''" "JNum 7"]
    by (simp add: flagged inc)
  have ce: "map_of (props p') ''e'' = Some (JBool True)"
    using absent [rule_format, of "''e''"]
    by (simp add: flagged inc cur)
  show ?thesis using c1 m same ca cb cc cd ce c3 by blast
qed

text \<open>
  C4 as stated fails where the kinds differ: an incoming object flagged for merging over
  a prior array does not replace it but inherits the array's indexed elements, and an
  incoming array flagged over a prior object makes the merge throw. An array whose name
  is flagged twice is appended to the prior array twice over. A flagged array named like
  a method of \<open>Object.prototype\<close> meets that method as its prior value, although the
  current props hold nothing under the name, and the merge throws.
\<close>

theorem mergeProps_mixed_kinds_counterexample:
  "mergeProps (partialResponse objectPage) startWorld objectPage
     = Inr (objectPage\<lparr>props :=
         [(''a'', JObj [(''0'', JNum 1), (''1'', JNum 2), (''y'', JNum 2)])]\<rparr>)
   \<and> spec_mergedProp (map_of (props (currentPage startWorld)) ''a'') (JObj [(''y'', JNum 2)])
     = JObj [(''y'', JNum 2)]
   \<and> mergeProps (partialResponse appendPage) objectWorld appendPage = Inl TypeError
   \<and> mergeProps (partialResponse twicePage) startWorld twicePage
     = Inr (twicePage\<lparr>props := [(''a'', JArr [JNum 1, JNum 2, JNum 1, JNum 2, JNum 3])]\<rparr>)
   \<and> map_of (props (currentPage startWorld)) ''constructor'' = None
   \<and> mergeProps (partialResponse constructorPage) startWorld constructorPage = Inl TypeError"
  by (simp add: merge_defs fixture_defs indexKey_small)

section \<open>Remembered state\<close>

lemma mergeProps_component: "mergeProps r w p = Inr p' \<Longrightarrow> component p' = component p"
  by (auto simp: mergeProps_def propsToMerge_def Let_def split: if_splits sum.splits)

lemma mergeProps_rememberedState:
  "mergeProps r w p = Inr p' \<Longrightarrow> rememberedState p' = rememberedState p"
  by (auto simp: mergeProps_def propsToMerge_def Let_def split: if_splits sum.splits)

text \<open>
  C7. \<open>setRememberedState\<close> copies the stored remembered state onto the incoming page
  exactly when the visit asked for \<open>preserveState\<close>, the history entry holds remembered
  state and the incoming component is the current one; a page of another component keeps
  its own. When \<open>setPage\<close> applies the response, the page it has prepared is the page
  it commits: the one passed to \<open>currentPage.set\<close> and current afterwards, and it
  carries the stored remembered state under exactly these three conditions and the
  payload's own otherwise. A response that is not applied commits nothing.
\<close>

theorem setRememberedState_iff:
  "setRememberedState r w p =
     (if preserveState (requestParams r) \<and> History_rememberedState w \<noteq> None
         \<and> component p = component (currentPage w)
      then p\<lparr>rememberedState := History_rememberedState w\<rparr> else p)
   \<and> (component p \<noteq> component (currentPage w)
        \<longrightarrow> rememberedState (setRememberedState r w p) = rememberedState p)
   \<and> (shouldSetPage e r w (data (response r)) \<and> setPage e r w = (Resolved, r', w')
        \<longrightarrow> rememberedState (data (response r')) =
             (if preserveState (requestParams r) \<and> History_rememberedState w \<noteq> None
                 \<and> component (data (response r)) = component (currentPage w)
              then History_rememberedState w else rememberedState (data (response r)))
          \<and> currentPage w' = data (response r')
          \<and> rememberedState (currentPage w') =
             (if preserveState (requestParams r) \<and> History_rememberedState w \<noteq> None
                 \<and> component (data (response r)) = component (currentPage w)
              then History_rememberedState w else rememberedState (data (response r)))
          \<and> trace w' = trace w @
               [PageSet (data (response r'))
                  \<lparr>opt_replace = replace (requestParams r'),
                   opt_preserveScroll = preserveScroll (requestParams r'),
                   opt_preserveState = preserveState (requestParams r')\<rparr>])
   \<and> (\<not> shouldSetPage e r w (data (response r)) \<longrightarrow> setPage e r w = (Resolved, r, w))"
proof (intro conjI impI)
  show "setRememberedState r w p =
     (if preserveState (requestParams r) \<and> History_rememberedState w \<noteq> None
         \<and> component p = component (currentPage w)
      then p\<lparr>rememberedState := History_rememberedState w\<rparr> else p)"
    by (simp add: setRememberedState_def)
next
  assume "component p \<noteq> component (currentPage w)"
  then show "rememberedState (setRememberedState r w p) = rememberedState p"
    by (simp add: setRememberedState_def)
next
  assume "\<not> shouldSetPage e r w (data (response r))"
  then show "setPage e r w = (Resolved, r, w)"
    by (simp add: setPage_def)
next
  assume a: "shouldSetPage e r w (data (response r)) \<and> setPage e r w = (Resolved, r', w')"
  then obtain merged where m: "mergeProps r w (data (response r)) = Inr merged"
    by (auto simp: setPage_def Let_def split: sum.splits)
  have c: "component merged = component (data (response r))"
    and s: "rememberedState merged = rememberedState (data (response r))"
    using m mergeProps_component mergeProps_rememberedState by auto
  from a m have "rememberedState (data (response r')) = rememberedState (setRememberedState r w merged)"
    by (auto simp: setPage_def Let_def)
  then show payload: "rememberedState (data (response r')) =
             (if preserveState (requestParams r) \<and> History_rememberedState w \<noteq> None
                 \<and> component (data (response r)) = component (currentPage w)
              then History_rememberedState w else rememberedState (data (response r)))"
    using c s by (auto simp: setRememberedState_def)
  from a m show store: "currentPage w' = data (response r')"
    by (auto simp: setPage_def Let_def currentPage_set_def emit_def)
  show "rememberedState (currentPage w') =
             (if preserveState (requestParams r) \<and> History_rememberedState w \<noteq> None
                 \<and> component (data (response r)) = component (currentPage w)
              then History_rememberedState w else rememberedState (data (response r)))"
    using payload store by simp
  from a m show "trace w' = trace w @
               [PageSet (data (response r'))
                  \<lparr>opt_replace = replace (requestParams r'),
                   opt_preserveScroll = preserveScroll (requestParams r'),
                   opt_preserveState = preserveState (requestParams r')\<rparr>]"
    by (auto simp: setPage_def Let_def currentPage_set_def emit_def)
qed

theorem setRememberedState_iff_witness:
  "rememberedState (setRememberedState keepStateUsers startWorld usersPage)
     = Some [(''form'', JStr ''draft'')]
   \<and> setRememberedState usersResponse startWorld usersPage = usersPage
   \<and> rememberedState (setRememberedState keepStateUsers elsewhere usersPage) = None
   \<and> rememberedState (currentPage (snd (snd (setPage testEnv keepStateUsers startWorld))))
     = Some [(''form'', JStr ''draft'')]
   \<and> trace (snd (snd (setPage testEnv keepStateUsers startWorld)))
     = [PageSet (usersPage\<lparr>rememberedState := Some [(''form'', JStr ''draft'')]\<rparr>)
          \<lparr>opt_replace = False, opt_preserveScroll = False, opt_preserveState = True\<rparr>]
   \<and> rememberedState (currentPage (snd (snd (setPage testEnv keepStateUsers elsewhere)))) = None
   \<and> setPage testEnv asyncUsers elsewhere = (Resolved, asyncUsers, elsewhere)"
proof -
  have a: "shouldSetPage testEnv keepStateUsers startWorld (data (response keepStateUsers))"
    and b: "shouldSetPage testEnv keepStateUsers elsewhere (data (response keepStateUsers))"
    by (simp_all add: shouldSetPage_def keepStateUsers_def syncVisit_def)
  have n: "\<not> shouldSetPage testEnv asyncUsers elsewhere (data (response asyncUsers))"
    by (simp add: shouldSetPage_def fixture_defs)
  have m1: "mergeProps keepStateUsers startWorld (data (response keepStateUsers))
      = Inr (data (response keepStateUsers))"
    and m2: "mergeProps keepStateUsers elsewhere (data (response keepStateUsers))
      = Inr (data (response keepStateUsers))"
    by (simp_all add: mergeProps_def keepStateUsers_def usersResponse_def syncVisit_def)
  obtain o1 r1 w1 where s1: "setPage testEnv keepStateUsers startWorld = (o1, r1, w1)"
    by (cases "setPage testEnv keepStateUsers startWorld") auto
  obtain o2 r2 w2 where s2: "setPage testEnv keepStateUsers elsewhere = (o2, r2, w2)"
    by (cases "setPage testEnv keepStateUsers elsewhere") auto
  have o1: "o1 = Resolved"
    using s1 a m1 by (simp add: setPage_def Let_def)
  have o2: "o2 = Resolved"
    using s2 b m2 by (simp add: setPage_def Let_def)
  have d1: "data (response r1) = usersPage\<lparr>rememberedState := Some [(''form'', JStr ''draft'')]\<rparr>"
    using s1 a m1
    by (auto simp: setPage_def Let_def setRememberedState_def pageUrl_def testEnv_def
        testUrl_def fixture_defs)
  have p1: "requestParams r1 = syncVisit\<lparr>preserveState := True\<rparr>"
    using s1 a m1 by (auto simp: setPage_def Let_def testEnv_def keepStateUsers_def)
  have h: "preserveState (requestParams keepStateUsers)"
    and st: "History_rememberedState startWorld = Some [(''form'', JStr ''draft'')]"
    and sc: "component (data (response keepStateUsers)) = component (currentPage startWorld)"
    and dc: "component (data (response keepStateUsers)) \<noteq> component (currentPage elsewhere)"
    and own: "rememberedState (data (response keepStateUsers)) = None"
    and t0: "trace startWorld = []"
    and up: "component usersPage = component (currentPage startWorld)"
    and ue: "component usersPage \<noteq> component (currentPage elsewhere)"
    and ur: "rememberedState usersPage = None"
    and np: "\<not> preserveState (requestParams usersResponse)"
    by (simp_all add: fixture_defs)
  note T1 = setRememberedState_iff [of keepStateUsers startWorld usersPage testEnv r1 w1]
  note T2 = setRememberedState_iff [of usersResponse startWorld usersPage testEnv r1 w1]
  note T3 = setRememberedState_iff [of keepStateUsers elsewhere usersPage testEnv r2 w2]
  note T4 = setRememberedState_iff [of asyncUsers elsewhere usersPage testEnv r2 w2]
  from T1 have "setRememberedState keepStateUsers startWorld usersPage
      = (if preserveState (requestParams keepStateUsers) \<and> History_rememberedState startWorld \<noteq> None
            \<and> component usersPage = component (currentPage startWorld)
         then usersPage\<lparr>rememberedState := History_rememberedState startWorld\<rparr> else usersPage)"
    by (rule conjunct1)
  then have c1: "rememberedState (setRememberedState keepStateUsers startWorld usersPage)
     = Some [(''form'', JStr ''draft'')]"
    using h st up by simp
  from T2 have "setRememberedState usersResponse startWorld usersPage
      = (if preserveState (requestParams usersResponse) \<and> History_rememberedState startWorld \<noteq> None
            \<and> component usersPage = component (currentPage startWorld)
         then usersPage\<lparr>rememberedState := History_rememberedState startWorld\<rparr> else usersPage)"
    by (rule conjunct1)
  then have c2: "setRememberedState usersResponse startWorld usersPage = usersPage"
    using np by simp
  from T3 ue have "rememberedState (setRememberedState keepStateUsers elsewhere usersPage)
      = rememberedState usersPage"
    by blast
  then have c3: "rememberedState (setRememberedState keepStateUsers elsewhere usersPage) = None"
    using ur by simp
  from T1 a s1 o1 have k1: "rememberedState (currentPage w1) =
             (if preserveState (requestParams keepStateUsers) \<and> History_rememberedState startWorld \<noteq> None
                 \<and> component (data (response keepStateUsers)) = component (currentPage startWorld)
              then History_rememberedState startWorld
              else rememberedState (data (response keepStateUsers)))"
    and tr1: "trace w1 = trace startWorld @
               [PageSet (data (response r1))
                  \<lparr>opt_replace = replace (requestParams r1),
                   opt_preserveScroll = preserveScroll (requestParams r1),
                   opt_preserveState = preserveState (requestParams r1)\<rparr>]"
    by blast+
  have c4: "rememberedState (currentPage w1) = Some [(''form'', JStr ''draft'')]"
    using k1 h st sc by simp
  have c5: "trace w1
     = [PageSet (usersPage\<lparr>rememberedState := Some [(''form'', JStr ''draft'')]\<rparr>)
          \<lparr>opt_replace = False, opt_preserveScroll = False, opt_preserveState = True\<rparr>]"
    using tr1 t0 d1 p1 by (simp add: syncVisit_def)
  from T3 b s2 o2 have "rememberedState (currentPage w2) =
             (if preserveState (requestParams keepStateUsers) \<and> History_rememberedState elsewhere \<noteq> None
                 \<and> component (data (response keepStateUsers)) = component (currentPage elsewhere)
              then History_rememberedState elsewhere
              else rememberedState (data (response keepStateUsers)))"
    by blast
  then have c6: "rememberedState (currentPage w2) = None"
    using dc own by simp
  from T4 n have c7: "setPage testEnv asyncUsers elsewhere = (Resolved, asyncUsers, elsewhere)"
    by blast
  show ?thesis
    using c1 c2 c3 c4 c5 c6 c7 by (simp add: s1 s2)
qed

section \<open>Scoped errors\<close>

text \<open>
  C10, as amended. With a non-empty error bag name configured, \<open>getScopedErrors\<close>
  returns the entry stored under that name when it is truthy, so an object whenever the
  entry is an object, and the empty object when the entry is falsy or when the key is
  absent (the name not being that of a member of \<open>Object.prototype\<close>). Without a name
  (none, or the empty string) it returns the errors unchanged. On the error path of
  \<open>process\<close> the error event and \<open>onError\<close> both receive this value.
\<close>

theorem getScopedErrors_scoping:
  "(errorBag (requestParams r) = Some b \<and> b \<noteq> []
      \<longrightarrow> (\<forall>kvs. map_of errors b = Some (JObj kvs) \<longrightarrow> getScopedErrors r errors = JObj kvs)
          \<and> (\<forall>v. map_of errors b = Some v \<and> truthy v \<longrightarrow> getScopedErrors r errors = v)
          \<and> (\<forall>v. map_of errors b = Some v \<and> \<not> truthy v \<longrightarrow> getScopedErrors r errors = JObj [])
          \<and> (map_of errors b = None \<and> b \<noteq> ''__proto__'' \<and> b \<notin> set objectPrototypeMethods
               \<longrightarrow> getScopedErrors r errors = JObj []))
   \<and> (errorBag (requestParams r) = None \<or> errorBag (requestParams r) = Some []
      \<longrightarrow> getScopedErrors r errors = JObj errors)
   \<and> (\<not> prefetch (requestParams r) \<and> isInertiaResponse r
      \<and> setPage e r ((emit [RunCallbacks] w)\<lparr>History_preserveUrl := preserveUrl (requestParams r)\<rparr>)
          = (Resolved, r3, w3)
      \<and> pageErrors (currentPage w3) \<noteq> []
      \<longrightarrow> trace (snd (snd (process e r w))) =
            trace w3 @ [ErrorEvent (getScopedErrors r3 (pageErrors (currentPage w3))),
                        OnError (getScopedErrors r3 (pageErrors (currentPage w3)))])"
proof (intro conjI impI allI)
  fix kvs
  assume "errorBag (requestParams r) = Some b \<and> b \<noteq> []" and "map_of errors b = Some (JObj kvs)"
  then show "getScopedErrors r errors = JObj kvs"
    by (simp add: getScopedErrors_def noErrorBag_def getProperty_def)
next
  fix v
  assume "errorBag (requestParams r) = Some b \<and> b \<noteq> []" and "map_of errors b = Some v \<and> truthy v"
  then show "getScopedErrors r errors = v"
    by (simp add: getScopedErrors_def noErrorBag_def getProperty_def)
next
  fix v
  assume "errorBag (requestParams r) = Some b \<and> b \<noteq> []" and "map_of errors b = Some v \<and> \<not> truthy v"
  then show "getScopedErrors r errors = JObj []"
    by (simp add: getScopedErrors_def noErrorBag_def getProperty_def)
next
  assume "errorBag (requestParams r) = Some b \<and> b \<noteq> []"
    and "map_of errors b = None \<and> b \<noteq> ''__proto__'' \<and> b \<notin> set objectPrototypeMethods"
  then show "getScopedErrors r errors = JObj []"
    by (simp add: getScopedErrors_def noErrorBag_def getProperty_def inheritedMethod_def)
next
  assume "errorBag (requestParams r) = None \<or> errorBag (requestParams r) = Some []"
  then show "getScopedErrors r errors = JObj errors"
    by (auto simp: getScopedErrors_def noErrorBag_def)
next
  assume "\<not> prefetch (requestParams r) \<and> isInertiaResponse r
      \<and> setPage e r ((emit [RunCallbacks] w)\<lparr>History_preserveUrl := preserveUrl (requestParams r)\<rparr>)
          = (Resolved, r3, w3)
      \<and> pageErrors (currentPage w3) \<noteq> []"
  then show "trace (snd (snd (process e r w))) =
            trace w3 @ [ErrorEvent (getScopedErrors r3 (pageErrors (currentPage w3))),
                        OnError (getScopedErrors r3 (pageErrors (currentPage w3)))]"
    by (simp add: process_def Let_def emit_def)
qed

theorem getScopedErrors_scoping_witness:
  "getScopedErrors invalidResponse (pageErrors invalidPage) = JObj [(''email'', JStr ''taken'')]
   \<and> getScopedErrors invalidResponse [(''login'', JNull)] = JObj []
   \<and> getScopedErrors invalidResponse [(''name'', JStr ''required'')] = JObj []
   \<and> getScopedErrors usersResponse (pageErrors invalidPage) = JObj (pageErrors invalidPage)
   \<and> trace (snd (snd (process testEnv invalidResponse startWorld))) =
       [RunCallbacks,
        PageSet (invalidPage\<lparr>url := url usersPage\<rparr>)
          \<lparr>opt_replace = False, opt_preserveScroll = False, opt_preserveState = False\<rparr>,
        ErrorEvent (JObj [(''email'', JStr ''taken'')]),
        OnError (JObj [(''email'', JStr ''taken'')])]"
proof -
  let ?w2 = "(emit [RunCallbacks] startWorld)\<lparr>History_preserveUrl := preserveUrl (requestParams invalidResponse)\<rparr>"
  obtain r3 w3 where sp: "setPage testEnv invalidResponse ?w2 = (Resolved, r3, w3)"
    and w3: "currentPage w3 = invalidPage\<lparr>url := url usersPage\<rparr>"
    and t3: "trace w3 = [RunCallbacks,
        PageSet (invalidPage\<lparr>url := url usersPage\<rparr>)
          \<lparr>opt_replace = False, opt_preserveScroll = False, opt_preserveState = False\<rparr>]"
    and r3: "errorBag (requestParams r3) = Some ''login''"
    by (simp add: setPage_def Let_def shouldSetPage_def mergeProps_def setRememberedState_def
        currentPage_set_def emit_def testEnv_def fixture_defs)
  have pe: "pageErrors (invalidPage\<lparr>url := url usersPage\<rparr>) = [(''login'', JObj [(''email'', JStr ''taken'')])]"
    by (simp add: pageErrors_def invalidPage_def)
  have pe': "pageErrors invalidPage = [(''login'', JObj [(''email'', JStr ''taken'')])]"
    by (simp add: pageErrors_def invalidPage_def)
  have bag: "errorBag (requestParams invalidResponse) = Some ''login''"
    by (simp add: invalidResponse_def loginVisit_def)
  have nobag: "errorBag (requestParams usersResponse) = None"
    by (simp add: usersResponse_def syncVisit_def)
  have pre: "\<not> prefetch (requestParams invalidResponse) \<and> isInertiaResponse invalidResponse"
    by (simp add: isInertiaResponse_def hasHeader_def getHeader_def fixture_defs)
  have ord: "''login'' \<noteq> ''__proto__'' \<and> ''login'' \<notin> set objectPrototypeMethods"
    by (simp add: objectPrototypeMethods_def)
  note g = getScopedErrors_scoping
  show ?thesis
    using g [of invalidResponse "''login''" "pageErrors invalidPage" testEnv startWorld r3 w3]
      g [of invalidResponse "''login''" "[(''login'', JNull)]" testEnv startWorld r3 w3]
      g [of invalidResponse "''login''" "[(''name'', JStr ''required'')]" testEnv startWorld r3 w3]
      g [of usersResponse "''login''" "pageErrors invalidPage" testEnv startWorld r3 w3]
      g [of r3 "''login''" "pageErrors invalidPage" testEnv startWorld r3 w3]
      sp w3 t3 r3 pe pe' bag nobag pre ord
    by simp
qed

text \<open>
  C10 as stated fails: with the bag name configured the value need not be an object. A
  string stored under the name is passed as it is, and a name that the errors do not own
  but \<open>Object.prototype\<close> does yields that member instead of the empty object.
\<close>

theorem getScopedErrors_not_object_counterexample:
  "errorBag (requestParams invalidResponse) = Some ''login''
   \<and> getScopedErrors invalidResponse unscopedErrors = JStr ''oops''
   \<and> (\<forall>kvs. getScopedErrors invalidResponse unscopedErrors \<noteq> JObj kvs)
   \<and> map_of unscopedErrors ''constructor'' = None
   \<and> getScopedErrors constructorVisit unscopedErrors = JFunction ''constructor''"
  by (simp add: getScopedErrors_def noErrorBag_def getProperty_def inheritedMethod_def
      objectPrototypeMethods_def fixture_defs)

section \<open>The preserve-URL mode\<close>

text \<open>
  C3 does not hold on the error path. For a protocol response whose committed page has a
  non-empty error bag and whose visit asked for \<open>preserveUrl\<close>, \<open>process\<close> resolves
  through \<open>onError\<close> and leaves \<open>History.preserveUrl\<close> set.
\<close>

theorem process_error_path_keeps_preserveUrl:
  "fst (process testEnv invalidResponse startWorld) = Resolved
   \<and> preserveUrl (requestParams invalidResponse)
   \<and> \<not> History_preserveUrl startWorld
   \<and> History_preserveUrl (snd (snd (process testEnv invalidResponse startWorld)))
   \<and> last (trace (snd (snd (process testEnv invalidResponse startWorld))))
       = OnError (JObj [(''email'', JStr ''taken'')])"
  by (simp add: process_def setPage_def Let_def shouldSetPage_def mergeProps_def propsToMerge_def
      setRememberedState_def currentPage_set_def emit_def pageErrors_def getScopedErrors_def
      getProperty_def noErrorBag_def isInertiaResponse_def hasHeader_def getHeader_def
      testEnv_def fixture_defs)

text \<open>
  The value of the mode after processing, on both paths. For a protocol response that is
  not a prefetch and whose processing resolves, the
  preserve-URL mode is cleared afterwards when the committed page has no errors, and is
  left as the visit set it when the page has errors.
\<close>

theorem process_preserveUrl_after:
  "\<not> prefetch (requestParams r) \<and> isInertiaResponse r \<and> process e r w = (Resolved, r', w')
     \<longrightarrow> History_preserveUrl w' =
           (if pageErrors (currentPage w') = [] then False else preserveUrl (requestParams r))"
  by (auto simp: process_def setPage_def Let_def currentPage_set_def emit_def
      split: if_splits sum.splits outcome.splits prod.splits)

theorem process_preserveUrl_after_witness:
  "\<not> prefetch (requestParams usersResponse) \<and> isInertiaResponse usersResponse
   \<and> fst (process testEnv usersResponse (startWorld\<lparr>History_preserveUrl := True\<rparr>)) = Resolved
   \<and> \<not> History_preserveUrl
         (snd (snd (process testEnv usersResponse (startWorld\<lparr>History_preserveUrl := True\<rparr>))))"
proof -
  obtain o' r' w' where
    p: "process testEnv usersResponse (startWorld\<lparr>History_preserveUrl := True\<rparr>) = (o', r', w')"
    by (cases "process testEnv usersResponse (startWorld\<lparr>History_preserveUrl := True\<rparr>)") auto
  have pre: "\<not> prefetch (requestParams usersResponse) \<and> isInertiaResponse usersResponse"
    by (simp add: isInertiaResponse_def hasHeader_def getHeader_def fixture_defs)
  have o: "o' = Resolved" and e: "pageErrors (currentPage w') = []"
    using p
    by (auto simp: process_def setPage_def Let_def shouldSetPage_def mergeProps_def
        propsToMerge_def setRememberedState_def currentPage_set_def emit_def pageErrors_def
        isInertiaResponse_def hasHeader_def getHeader_def testEnv_def fixture_defs)
  show ?thesis
    using process_preserveUrl_after
      [of usersResponse testEnv "startWorld\<lparr>History_preserveUrl := True\<rparr>" r' w']
      p pre o e
    by simp
qed

section \<open>The response queue\<close>

lemma run_Nil: "run [] q = q"
  by (simp add: run_def)

lemma run_Cons: "run (e # es) q = run es (step e q)"
  by (simp add: run_def)

lemma run_append: "run (es @ es') q = run es' (run es q)"
  by (simp add: run_def)

lemma enqueued_append: "enqueued (es @ es') = enqueued es @ enqueued es'"
  by (induction es rule: enqueued.induct) auto

lemma started_append: "started (os @ os') = started os @ started os'"
  by (induction os rule: started.induct) auto

lemma finished_append: "finished (os @ os') = finished os @ finished os'"
  by (induction os rule: finished.induct) auto

lemma step_fifo:
  "started (observed (step e q)) @ queue (step e q)
     = started (observed q) @ queue q @ enqueued [e]"
  by (cases e) (auto simp: queue_defs started_append split: list.splits drain.splits)

lemma run_fifo:
  "started (observed (run es q)) @ queue (run es q)
     = started (observed q) @ queue q @ enqueued es"
proof (induction es arbitrary: q)
  case Nil
  then show ?case by (simp add: run_Nil)
next
  case (Cons e es)
  have "enqueued (e # es) = enqueued [e] @ enqueued es"
    using enqueued_append [of "[e]" es] by simp
  then show ?case using Cons.IH [of "step e q"] step_fifo [of e q]
    by (simp add: run_Cons)
qed


lemma step_tracked: "tracked q \<Longrightarrow> tracked (step e q)"
  by (cases e) (auto simp: tracked_def queue_defs split: list.splits drain.splits)

lemma run_tracked: "tracked q \<Longrightarrow> tracked (run es q)"
proof (induction es arbitrary: q)
  case Nil
  then show ?case by (simp add: run_Nil)
next
  case (Cons e es)
  then show ?case using step_tracked [of q e] by (simp add: run_Cons)
qed

lemma wedged_step:
  "processing q \<Longrightarrow> drain q = NoDrain \<Longrightarrow> step e q = q\<lparr>queue := queue q @ enqueued [e]\<rparr>"
  by (cases e) (auto simp: queue_defs)

lemma wedged_run:
  "processing q \<Longrightarrow> drain q = NoDrain \<Longrightarrow> run es q = q\<lparr>queue := queue q @ enqueued es\<rparr>"
proof (induction es arbitrary: q)
  case Nil
  then show ?case by (simp add: run_Nil)
next
  case (Cons e es)
  have s: "step e q = q\<lparr>queue := queue q @ enqueued [e]\<rparr>"
    using Cons.prems by (rule wedged_step)
  have "enqueued (e # es) = enqueued [e] @ enqueued es"
    using enqueued_append [of "[e]" es] by simp
  then show ?case using Cons.IH [of "step e q"] Cons.prems s
    by (simp add: run_Cons)
qed

lemma healthy_step:
  "healthy q \<Longrightarrow> calm (e # es) q \<Longrightarrow> healthy (step e q)"
  by (cases e)
     (auto simp: healthy_def queue_defs started_append finished_append
           split: list.splits drain.splits)

lemma healthy_run: "healthy q \<Longrightarrow> calm es q \<Longrightarrow> healthy (run es q)"
proof (induction es arbitrary: q)
  case Nil
  then show ?case by (simp add: run_Nil)
next
  case (Cons e es)
  have h: "healthy (step e q)" using Cons.prems by (rule healthy_step)
  have c: "calm es (step e q)" using Cons.prems(2) by (cases e) auto
  show ?case using Cons.IH [OF h c] by (simp add: run_Cons)
qed

lemma drain_inprocess:
  "drain q = InProcess r \<Longrightarrow> processing q \<Longrightarrow>
     run (replicate (Suc (length (queue q))) Resolve) q =
       q\<lparr>queue := [], drain := Returning,
         observed := observed q @ Finished r # concat (map (\<lambda>x. [Started x, Finished x]) (queue q))\<rparr>"
proof (induction "queue q" arbitrary: q r)
  case Nil
  then show ?case by (simp add: run_def queue_defs)
next
  case (Cons x xs)
  let ?q = "processResolved q"
  have q': "?q = q\<lparr>queue := xs, drain := InProcess x, observed := observed q @ [Finished r, Started x]\<rparr>"
    using Cons.hyps(2) [symmetric] Cons.prems by (simp add: queue_defs)
  have xs: "xs = queue ?q" and d: "drain ?q = InProcess x" and p: "processing ?q"
    using Cons.prems by (simp_all add: q')
  have "run (replicate (Suc (length (queue ?q))) Resolve) ?q =
       ?q\<lparr>queue := [], drain := Returning,
         observed := observed ?q @ Finished x # concat (map (\<lambda>x. [Started x, Finished x]) (queue ?q))\<rparr>"
    using xs d p by (rule Cons.hyps(1))
  moreover have "run (replicate (Suc (length (queue q))) Resolve) q
      = run (replicate (Suc (length (queue ?q))) Resolve) ?q"
    using Cons.hyps(2) [symmetric] by (simp add: run_Cons q')
  ultimately show ?case using Cons.hyps(2) [symmetric]
    by (simp add: q')
qed

lemma finished_pairs: "finished (concat (map (\<lambda>x. [Started x, Finished x]) xs)) = xs"
  by (induction xs) auto

lemma idle_Resolve:
  "drain q = Returning \<or> drain q = NoDrain \<Longrightarrow> run (replicate n Resolve) q = q"
  by (induction n) (auto simp: run_Cons run_Nil queue_defs)

lemma run_then_Resume:
  "run (replicate n Resolve @ [Resume]) q = drainReturned (run (replicate n Resolve) q)"
  by (simp only: run_append run_Cons run_Nil step.simps)

lemma healthy_drains:
  assumes "healthy q"
  shows "\<exists>os. run (replicate (Suc (length (queue q))) Resolve @ [Resume]) q =
               q\<lparr>queue := [], processing := False, drain := NoDrain, observed := os\<rparr>
            \<and> finished os = started (observed q) @ queue q"
proof (cases "drain q")
  case NoDrain
  have i: "run (replicate (Suc (length (queue q))) Resolve) q = q"
    using idle_Resolve [of q "Suc (length (queue q))"] NoDrain by blast
  have e: "run (replicate (Suc (length (queue q))) Resolve @ [Resume]) q = drainReturned q"
    by (simp only: run_then_Resume i)
  have d: "drainReturned q = q\<lparr>queue := [], processing := False, drain := NoDrain,
      observed := observed q\<rparr>"
    using NoDrain assms by (simp add: drainReturned_def healthy_def)
  have f: "finished (observed q) = started (observed q) @ queue q"
    using NoDrain assms by (simp add: healthy_def)
  show ?thesis
    by (rule exI [of _ "observed q"]) (simp only: e d f simp_thms)
next
  case (InProcess r)
  have p: "processing q" using assms InProcess by (simp add: healthy_def)
  let ?os = "observed q @ Finished r # concat (map (\<lambda>x. [Started x, Finished x]) (queue q))"
  have e: "run (replicate (Suc (length (queue q))) Resolve @ [Resume]) q =
      drainReturned (q\<lparr>queue := [], drain := Returning, observed := ?os\<rparr>)"
    by (simp only: run_then_Resume drain_inprocess [OF InProcess p])
  have d: "drainReturned (q\<lparr>queue := [], drain := Returning, observed := ?os\<rparr>)
      = q\<lparr>queue := [], processing := False, drain := NoDrain, observed := ?os\<rparr>"
    by (simp add: drainReturned_def)
  have f: "finished ?os = started (observed q) @ queue q"
    using InProcess assms by (simp add: healthy_def finished_append finished_pairs)
  show ?thesis
    by (rule exI [of _ ?os]) (simp only: e d f simp_thms)
next
  case Returning
  have i: "run (replicate (Suc (length (queue q))) Resolve) q = q"
    using idle_Resolve [of q "Suc (length (queue q))"] Returning by blast
  have e: "run (replicate (Suc (length (queue q))) Resolve @ [Resume]) q = drainReturned q"
    by (simp only: run_then_Resume i)
  have d: "drainReturned q = q\<lparr>queue := [], processing := False, drain := NoDrain,
      observed := observed q\<rparr>"
    using Returning assms by (simp add: drainReturned_def healthy_def)
  have f: "finished (observed q) = started (observed q) @ queue q"
    using Returning assms by (simp add: healthy_def)
  show ?thesis
    by (rule exI [of _ "observed q"]) (simp only: e d f simp_thms)
qed

text \<open>
  C2 does not hold when an awaited \<open>process()\<close> rejects. The partial reload below
  rejects (its mergeable array meets a prior object); once a \<open>process()\<close> has rejected,
  the flag stays set with no drain loop running, and whatever is handled afterwards is
  only appended to the queue: nothing is ever started again.
\<close>

theorem ResponseQueue_wedged_by_rejection:
  "fst (process testEnv (partialResponse appendPage) objectWorld) = Rejected TypeError
   \<and> (\<forall>es. run (Handle r1 # Reject # Handle r2 # es) newQueue =
          \<lparr>queue = r2 # enqueued es, processing = True, drain = NoDrain,
           observed = [Started r1, Failed r1]\<rparr>)"
proof (intro conjI allI)
  show "fst (process testEnv (partialResponse appendPage) objectWorld) = Rejected TypeError"
    by (simp add: process_def setPage_def Let_def shouldSetPage_def merge_defs emit_def
        isInertiaResponse_def hasHeader_def getHeader_def fixture_defs)
next
  fix es
  let ?q = "run [Handle r1, Reject, Handle r2] newQueue"
  have q: "?q = \<lparr>queue = [r2], processing = True, drain = NoDrain,
      observed = [Started r1, Failed r1]\<rparr>"
    by (simp add: run_def queue_defs newQueue_def)
  have "run (Handle r1 # Reject # Handle r2 # es) newQueue = run es ?q"
    using run_append [of "[Handle r1, Reject, Handle r2]" es newQueue] by simp
  also have "\<dots> = ?q\<lparr>queue := queue ?q @ enqueued es\<rparr>"
    by (rule wedged_run) (simp_all add: q)
  finally show "run (Handle r1 # Reject # Handle r2 # es) newQueue =
     \<lparr>queue = r2 # enqueued es, processing = True, drain = NoDrain,
      observed = [Started r1, Failed r1]\<rparr>"
    by (simp add: q)
qed

text \<open>
  What does hold of the queue. Whatever the schedule, the responses started so far
  followed by those still queued are the responses handled, in the order they were
  handled: processing starts in enqueue order and the queue itself loses none.
\<close>

theorem ResponseQueue_fifo:
  "started (observed (run es newQueue)) @ queue (run es newQueue) = enqueued es"
  using run_fifo [of es newQueue] by (simp add: newQueue_def)

text \<open>
  Whatever the schedule, no \<open>process()\<close> starts while another is in flight.
\<close>

theorem ResponseQueue_no_overlap: "serial (observed (run es newQueue))"
proof -
  have "tracked (run es newQueue)"
    by (rule run_tracked) (simp add: tracked_def newQueue_def)
  then show ?thesis
    by (cases "drain (run es newQueue)") (simp_all add: serial_def tracked_def)
qed

text \<open>
  After a calm schedule, once the awaited calls have resolved and the drain loop has
  returned, every response handled has finished, in order, the queue is empty and the
  flag is cleared. A response handled in the gap between the drain loop's return and the
  clearing of the flag stays in the queue until the next one is handled.
\<close>

theorem ResponseQueue_calm_liveness:
  "calm es newQueue \<Longrightarrow>
     finished (observed (run (es @ replicate (Suc (length (queue (run es newQueue)))) Resolve
                               @ [Resume]) newQueue))
       = enqueued es
     \<and> queue (run (es @ replicate (Suc (length (queue (run es newQueue)))) Resolve
                      @ [Resume]) newQueue) = []
     \<and> \<not> processing (run (es @ replicate (Suc (length (queue (run es newQueue)))) Resolve
                             @ [Resume]) newQueue)"
proof -
  assume c: "calm es newQueue"
  let ?q = "run es newQueue"
  let ?tail = "replicate (Suc (length (queue ?q))) Resolve @ [Resume]"
  have h0: "healthy (newQueue :: 'a responseQueue)"
    by (simp add: healthy_def newQueue_def)
  have h: "healthy ?q" using h0 c by (rule healthy_run)
  have f: "started (observed ?q) @ queue ?q = enqueued es"
    using run_fifo [of es newQueue] by (simp add: newQueue_def)
  from healthy_drains [OF h] obtain os where
    d: "run ?tail ?q = ?q\<lparr>queue := [], processing := False, drain := NoDrain, observed := os\<rparr>"
    and fo: "finished os = started (observed ?q) @ queue ?q"
    by blast
  have r: "run (es @ ?tail) newQueue = run ?tail ?q"
    by (simp only: run_append)
  show ?thesis
    by (simp only: r d) (simp add: fo f)
qed

theorem ResponseQueue_calm_liveness_witness:
  "calm [Handle (1::nat), Handle 2, Resolve, Handle 3] newQueue
   \<and> finished (observed (run [Handle (1::nat), Handle 2, Resolve, Handle 3,
                               Resolve, Resolve, Resume] newQueue)) = [1, 2, 3]
   \<and> queue (run [Handle (1::nat), Handle 2, Resolve, Handle 3,
                  Resolve, Resolve, Resume] newQueue) = []
   \<and> \<not> processing (run [Handle (1::nat), Handle 2, Resolve, Handle 3,
                         Resolve, Resolve, Resume] newQueue)
   \<and> run [Handle (1::nat), Resolve, Handle 2, Resume] newQueue
       = \<lparr>queue = [2], processing = False, drain = NoDrain,
          observed = [Started 1, Finished 1]\<rparr>"
proof -
  have c: "calm [Handle (1::nat), Handle 2, Resolve, Handle 3] newQueue"
    by (simp add: queue_defs newQueue_def)
  have q: "queue (run [Handle (1::nat), Handle 2, Resolve, Handle 3] newQueue) = [3]"
    by (simp add: run_def queue_defs newQueue_def)
  have g: "run [Handle (1::nat), Resolve, Handle 2, Resume] newQueue
       = \<lparr>queue = [2], processing = False, drain = NoDrain,
          observed = [Started 1, Finished 1]\<rparr>"
    by (simp add: run_def queue_defs newQueue_def)
  show ?thesis
    using ResponseQueue_calm_liveness [OF c] c q g by simp
qed

section \<open>The prefetch entry point\<close>

text \<open>
  C9. \<open>handlePrefetch\<close> hands the response to the queue when the current page's component
  is the payload's component; otherwise the world and the queue are left as they are.
\<close>

theorem handlePrefetch_gate:
  "(component (currentPage w) = component (data (response r))
      \<longrightarrow> handlePrefetch r (w, q) = (w, handle r q))
   \<and> (component (currentPage w) \<noteq> component (data (response r))
      \<longrightarrow> handlePrefetch r (w, q) = (w, q))"
  by (simp add: handlePrefetch_def)

theorem handlePrefetch_gate_witness:
  "handlePrefetch prefetchUsers (startWorld, newQueue) =
     (startWorld, \<lparr>queue = [], processing = True, drain = InProcess prefetchUsers,
                   observed = [Started prefetchUsers]\<rparr>)
   \<and> handlePrefetch prefetchUsers (elsewhere, newQueue) = (elsewhere, newQueue)"
  using handlePrefetch_gate [of startWorld prefetchUsers newQueue]
    handlePrefetch_gate [of elsewhere prefetchUsers newQueue]
  by (simp add: prefetchUsers_def usersResponse_def okResponse_def usersPage_def
      startWorld_def elsewhere_def newQueue_def handle_def ResponseQueue_add_def
      ResponseQueue_process_def processQueue_def)


section \<open>The initial visit\<close>

text \<open>
  C6. \<open>InitialVisit.handle\<close> first clears the remembered state when the navigation is a
  reload, and then runs exactly one scenario: the back/forward restore when its guard
  holds, else the location-visit resume when the marker is stored, else the default. A
  scenario whose guard fails returns false and leaves the world as it is.
\<close>

theorem InitialVisit_handle_one_scenario:
  "InitialVisit_handle e w =
     (let w0 = clearRememberedStateOnReload w in
      if navigationType w0 = BackForward \<and> History_hasAnyState w0
      then snd (handleBackForward e w0)
      else if SessionStorage_locationVisit w0 \<noteq> None then snd (handleLocation e w0)
      else snd (handleDefault e w0))
   \<and> (\<not> (navigationType w = BackForward \<and> History_hasAnyState w)
        \<longrightarrow> handleBackForward e w = (False, w))
   \<and> (navigationType w = BackForward \<and> History_hasAnyState w
        \<longrightarrow> fst (handleBackForward e w))
   \<and> (SessionStorage_locationVisit w = None \<longrightarrow> handleLocation e w = (False, w))
   \<and> (SessionStorage_locationVisit w \<noteq> None \<longrightarrow> fst (handleLocation e w))
   \<and> (navigationType w = Reload
        \<longrightarrow> History_rememberedState (clearRememberedStateOnReload w) = None)
   \<and> (navigationType w \<noteq> Reload \<longrightarrow> clearRememberedStateOnReload w = w)"
proof (intro conjI impI)
  show "InitialVisit_handle e w =
     (let w0 = clearRememberedStateOnReload w in
      if navigationType w0 = BackForward \<and> History_hasAnyState w0
      then snd (handleBackForward e w0)
      else if SessionStorage_locationVisit w0 \<noteq> None then snd (handleLocation e w0)
      else snd (handleDefault e w0))"
    by (auto simp: InitialVisit_handle_def Let_def handleBackForward_def handleLocation_def
        handleDefault_def split: option.splits prod.splits)
next
  assume "\<not> (navigationType w = BackForward \<and> History_hasAnyState w)"
  then show "handleBackForward e w = (False, w)"
    by (auto simp: handleBackForward_def)
next
  assume "navigationType w = BackForward \<and> History_hasAnyState w"
  then show "fst (handleBackForward e w)"
    by (auto simp: handleBackForward_def Let_def split: option.splits)
next
  assume "SessionStorage_locationVisit w = None"
  then show "handleLocation e w = (False, w)"
    by (simp add: handleLocation_def)
next
  assume "SessionStorage_locationVisit w \<noteq> None"
  then show "fst (handleLocation e w)"
    by (auto simp: handleLocation_def Let_def split: option.splits)
next
  assume "navigationType w = Reload"
  then show "History_rememberedState (clearRememberedStateOnReload w) = None"
    by (simp add: clearRememberedStateOnReload_def History_deleteRememberedState_def)
next
  assume "navigationType w \<noteq> Reload"
  then show "clearRememberedStateOnReload w = w"
    by (simp add: clearRememberedStateOnReload_def)
qed


theorem InitialVisit_handle_one_scenario_witness:
  "trace (InitialVisit_handle testEnv backWorld) = [HistoryDecrypt, MissingHistoryItem]
   \<and> SessionStorage_locationVisit (InitialVisit_handle testEnv backWorld) = Some True
   \<and> trace (InitialVisit_handle testEnv resumeWorld)
       = [SessionRemove, SetUrlHash ''#top'', HistoryDecrypt, MissingHistoryItem]
   \<and> take 1 (trace (InitialVisit_handle testEnv startWorld)) = [SetUrlHash ''#top'']
   \<and> length (trace (InitialVisit_handle testEnv startWorld)) = 3
   \<and> History_rememberedState (InitialVisit_handle testEnv reloadWorld) = None
   \<and> History_rememberedState (InitialVisit_handle testEnv startWorld)
       = Some [(''form'', JStr ''draft'')]
   \<and> handleBackForward testEnv startWorld = (False, startWorld)
   \<and> handleLocation testEnv startWorld = (False, startWorld)
   \<and> fst (handleBackForward testEnv backWorld)
   \<and> fst (handleLocation testEnv resumeWorld)"
  using InitialVisit_handle_one_scenario [of testEnv backWorld]
    InitialVisit_handle_one_scenario [of testEnv resumeWorld]
    InitialVisit_handle_one_scenario [of testEnv startWorld]
    InitialVisit_handle_one_scenario [of testEnv reloadWorld]
  by (simp add: Let_def clearRememberedStateOnReload_def History_deleteRememberedState_def
      handleBackForward_def handleLocation_def handleDefault_def currentPage_setUrlHash_def
      currentPage_set_def emit_def getStateOr_def testEnv_def fixture_defs)

text \<open>
  C8. In the location-visit resume the marker is removed before the history entry is
  decrypted, so it is gone also when decryption fails and the missing-history-item signal
  is reported.
\<close>

theorem handleLocation_consumes_marker:
  "SessionStorage_locationVisit w \<noteq> None \<Longrightarrow>
     SessionStorage_locationVisit (snd (handleLocation e w)) = None
     \<and> (\<exists>rest. trace (snd (handleLocation e w)) =
           trace w @ [SessionRemove, SetUrlHash (window_location_hash w), HistoryDecrypt] @ rest)
     \<and> (History_decrypt w = None \<longrightarrow>
           trace (snd (handleLocation e w)) =
             trace w @ [SessionRemove, SetUrlHash (window_location_hash w), HistoryDecrypt,
                        MissingHistoryItem])"
  by (auto simp: handleLocation_def Let_def emit_def currentPage_setUrlHash_def
      currentPage_set_def currentPage_remember_def currentPage_scrollRegions_def
      split: option.splits)

theorem handleLocation_consumes_marker_witness:
  "SessionStorage_locationVisit resumeWorld \<noteq> None
   \<and> History_decrypt resumeWorld = None
   \<and> SessionStorage_locationVisit (snd (handleLocation testEnv resumeWorld)) = None
   \<and> trace (snd (handleLocation testEnv resumeWorld))
       = [SessionRemove, SetUrlHash ''#top'', HistoryDecrypt, MissingHistoryItem]"
proof -
  have h: "SessionStorage_locationVisit resumeWorld \<noteq> None"
    by (simp add: fixture_defs)
  have d: "History_decrypt resumeWorld = None" and t: "trace resumeWorld = []"
    and w: "window_location_hash resumeWorld = ''#top''"
    by (simp_all add: fixture_defs)
  show ?thesis
    using handleLocation_consumes_marker [OF h, of testEnv] h d t w by simp
qed

end
